theory Spec2Isabelle
  imports Main "HOL-Library.AList"
begin

section \<open>Python values used by the indexer\<close>

text \<open>
  Strings are character lists. \<open>join sep xs\<close> is Python's \<^verbatim>\<open>sep.join(xs)\<close>,
  \<open>split sep s\<close> is \<^verbatim>\<open>s.split(sep)\<close> for a one-character separator (the only
  use in the module is \<^verbatim>\<open>bugs_closed.split(',')\<close>).
\<close>

definition nl :: string where
  "nl = [CHR 0x0A]"

fun join :: "string \<Rightarrow> string list \<Rightarrow> string" where
  "join sep [] = []"
| "join sep [x] = x"
| "join sep (x # y # ys) = x @ sep @ join sep (y # ys)"

fun split :: "char \<Rightarrow> string \<Rightarrow> string list" where
  "split sep [] = [[]]"
| "split sep (c # cs) =
     (if c = sep then [] # split sep cs
      else (case split sep cs of [] \<Rightarrow> [[c]] | w # ws \<Rightarrow> (c # w) # ws))"

text \<open>Decimal printing: \<^verbatim>\<open>str(n)\<close> and \<^verbatim>\<open>unicode(n)\<close> of an integer.\<close>

definition digit :: "nat \<Rightarrow> char" where
  "digit d = ''0123456789'' ! d"

fun str_nat :: "nat \<Rightarrow> string" where
  "str_nat n = (if n < 10 then [digit n] else str_nat (n div 10) @ [digit (n mod 10)])"

definition str_int :: "int \<Rightarrow> string" where
  "str_int i = (if i < 0 then CHR ''-'' # str_nat (nat (- i)) else str_nat (nat i))"

text \<open>\<^verbatim>\<open>unicode(x)\<close> of a nullable integer column: \<^verbatim>\<open>None\<close> prints as "None".\<close>

definition unicode_opt :: "int option \<Rightarrow> string" where
  "unicode_opt x = (case x of None \<Rightarrow> ''None'' | Some i \<Rightarrow> str_int i)"

text \<open>Truth value of a nullable integer: \<^verbatim>\<open>None\<close> and \<^verbatim>\<open>0\<close> are false.\<close>

definition truthy_int :: "int option \<Rightarrow> bool" where
  "truthy_int x = (case x of None \<Rightarrow> False | Some i \<Rightarrow> i \<noteq> 0)"

text \<open>
  The exceptions the module can raise or receive: a missing dictionary key (the key is an
  integer or \<^verbatim>\<open>None\<close>), a missing attribute, a failed \<^verbatim>\<open>assert\<close>, a
  division by zero, the interpreter's "maximum recursion depth exceeded", and an exception
  thrown by the Lucene backend. All of them are instances of \<^verbatim>\<open>Exception\<close>.
\<close>

datatype error =
  KeyError "int option" | AttributeError | AssertionError | ZeroDivisionError | RuntimeError
  | JavaError string

definition bind_err :: "error + 'a \<Rightarrow> ('a \<Rightarrow> error + 'b) \<Rightarrow> error + 'b" where
  "bind_err m f = (case m of Inl e \<Rightarrow> Inl e | Inr x \<Rightarrow> f x)"

text \<open>A \<^verbatim>\<open>for\<close> loop whose body may raise: the first exception ends the loop.\<close>

fun for_each :: "('a \<Rightarrow> 's \<Rightarrow> error + 's) \<Rightarrow> 'a list \<Rightarrow> 's \<Rightarrow> error + 's" where
  "for_each body [] s = Inr s"
| "for_each body (x # xs) s = bind_err (body x s) (for_each body xs)"

text \<open>
  \<^verbatim>\<open>map(f, xs)\<close> of Python 2, which builds the whole list at once: the elements are
  taken from left to right, and the first exception ends the call.
\<close>

fun map_err :: "('a \<Rightarrow> error + 'b) \<Rightarrow> 'a list \<Rightarrow> error + 'b list" where
  "map_err f [] = Inr []"
| "map_err f (x # xs) = bind_err (f x) (\<lambda>y. bind_err (map_err f xs) (\<lambda>ys. Inr (y # ys)))"

text \<open>
  \<^verbatim>\<open>set(xs)\<close> and the walk over it. The set receives the elements of the list one by
  one and keeps an element it does not have yet, so it holds every element once. The
  walk goes through the slots of the hash table; which slot an element has depends on the
  hashes of the strings and on the elements that were there before it, and is a parameter:
  \<open>slot s x\<close> is the slot of \<open>x\<close> in the table built by the insertions \<open>s\<close>.
\<close>

definition set_add :: "'a \<Rightarrow> 'a list \<Rightarrow> 'a list" where
  "set_add x s = (if x \<in> set s then s else s @ [x])"

definition set_of_list :: "'a list \<Rightarrow> 'a list" where
  "set_of_list xs = fold set_add xs []"

definition set_walk :: "('a list \<Rightarrow> 'a \<Rightarrow> nat) \<Rightarrow> 'a list \<Rightarrow> 'a list" where
  "set_walk slot s = sort_key (slot s) s"

text \<open>A dictionary is an association list in insertion order.\<close>

type_synonym ('k, 'v) dict = "('k \<times> 'v) list"

definition dict_get :: "(int, 'v) dict \<Rightarrow> int \<Rightarrow> error + 'v" where
  "dict_get d k = (case map_of d k of None \<Rightarrow> Inl (KeyError (Some k)) | Some v \<Rightarrow> Inr v)"

definition dict_has :: "(int, 'v) dict \<Rightarrow> int \<Rightarrow> bool" where
  "dict_has d k = (map_of d k \<noteq> None)"

text \<open>The same with a key that may be \<^verbatim>\<open>None\<close>, which is never a key of these dictionaries.\<close>

definition dict_get_opt :: "(int, 'v) dict \<Rightarrow> int option \<Rightarrow> error + 'v" where
  "dict_get_opt d k = (case k of None \<Rightarrow> Inl (KeyError None) | Some k' \<Rightarrow> dict_get d k')"

definition dict_has_opt :: "(int, 'v) dict \<Rightarrow> int option \<Rightarrow> bool" where
  "dict_has_opt d k = (case k of None \<Rightarrow> False | Some k' \<Rightarrow> dict_has d k')"

text \<open>Reading an attribute that was stored per object key; a missing one raises.\<close>

definition attr_get :: "(int, 'v) dict \<Rightarrow> int \<Rightarrow> error + 'v" where
  "attr_get d k = (case map_of d k of None \<Rightarrow> Inl AttributeError | Some v \<Rightarrow> Inr v)"

section \<open>Data model\<close>

text \<open>
  A row of the reviews table. \<open>pk\<close> is the primary key, so the reviews fetched for one
  review request have pairwise different \<open>pk\<close>; a review object is identified by it.
\<close>

record review =
  pk :: int
  public :: bool
  base_reply_to_id :: "int option"
  body_top_reply_to_id :: "int option"
  body_bottom_reply_to_id :: "int option"
  timestamp :: int
  body_top :: string
  body_bottom :: string

text \<open>
  A row of the comments table, and a row of the join table between reviews and comments
  with its comment loaded (\<^verbatim>\<open>select_related\<close>).
\<close>

record comment =
  comment_pk :: int
  comment_text :: string
  reply_to_id :: "int option"

record join_row =
  review_id :: int
  row_comment :: comment

text \<open>
  A comment object in memory. Every fetched join row carries a comment object of its own,
  so two rows with the same comment key are two objects. The objects live in a store, a
  list addressed by the position of the row in the fetch; \<open>c_replies\<close> is the attribute
  \<^verbatim>\<open>_replies\<close> (addresses of comment objects) and \<open>c_review\<close> the attribute
  \<^verbatim>\<open>_review\<close> (the key of the owning review, once it is set). The attribute
  \<^verbatim>\<open>_review_request\<close> always holds the argument of the call and is not stored.
\<close>

record comment_obj = comment +
  c_replies :: "nat list"
  c_review :: "int option"

definition new_comment_obj :: "comment \<Rightarrow> comment_obj" where
  "new_comment_obj c =
     \<lparr>comment_pk = comment_pk c, comment_text = comment_text c, reply_to_id = reply_to_id c,
      c_replies = [], c_review = None\<rparr>"

section \<open>flatten\_comment\<close>

text \<open>
  \<^verbatim>\<open>
  def flatten_comment(comment):
      text = comment.text
      for reply in comment._replies:
          text = text + "\n" + flatten_comment(reply)
      return text
  \<close>
  The recursion follows object references, and the function itself does nothing to bound
  it. What bounds it is the interpreter: every call takes a frame of the call stack, and a
  call made when the stack has reached the recursion limit (\<^verbatim>\<open>sys.getrecursionlimit()\<close>,
  1000 unless it was changed) raises \<^verbatim>\<open>RuntimeError\<close>, "maximum recursion depth
  exceeded". The first argument \<open>frames\<close> is the number of frames that are left when
  the function is called. The body calls nothing but the function itself: reading the two
  attributes, walking the list and concatenating strings take no frame.
\<close>

fun flatten_comment :: "nat \<Rightarrow> comment_obj list \<Rightarrow> nat \<Rightarrow> error + string" where
  "flatten_comment 0 heap c = Inl RuntimeError"
| "flatten_comment (Suc frames) heap c =
     for_each
       (\<lambda>reply text. bind_err (flatten_comment frames heap reply) (\<lambda>t. Inr (text @ nl @ t)))
       (c_replies (heap ! c))
       (comment_text (heap ! c))"

section \<open>get\_all\_review\_comments\<close>

text \<open>
  Modelled from the spec: \<^verbatim>\<open>Review.is_reply()\<close> and \<^verbatim>\<open>Comment.is_reply()\<close> are methods
  of the models, which are not part of the module. The spec describes a reply-review as one
  with \<^verbatim>\<open>base_reply_to\<close> set and a reply comment as one with \<^verbatim>\<open>reply_to\<close> set.
\<close>

definition is_reply :: "review \<Rightarrow> bool" where
  "is_reply r = (base_reply_to_id r \<noteq> None)"

definition comment_is_reply :: "comment_obj \<Rightarrow> bool" where
  "comment_is_reply c = (reply_to_id c \<noteq> None)"

text \<open>
  The local variables of the first loop (lines 48--101), and the attributes
  \<^verbatim>\<open>_body_top_replies\<close> and \<^verbatim>\<open>_body_bottom_replies\<close> of the review objects, stored per
  review key.
\<close>

record scan =
  public_reviews :: "review list"
  replies :: "(int, review list) dict"
  reply_timestamps :: "(int, int) dict"
  reviews_id_map :: "(int, review) dict"
  body_top_replies :: "(int, review list) dict"
  body_bottom_replies :: "(int, review list) dict"
  top_attr :: "(int, review list) dict"
  bottom_attr :: "(int, review list) dict"

definition scan_init :: scan where
  "scan_init =
     \<lparr>public_reviews = [], replies = [], reply_timestamps = [], reviews_id_map = [],
      body_top_replies = [], body_bottom_replies = [], top_attr = [], bottom_attr = []\<rparr>"

text \<open>
  Lines 94--101, for one of the two (reply id, dictionary) pairs:
  \<^verbatim>\<open>
  if reply_id is not None:
      if reply_id not in reply_list: reply_list[reply_id] = [review]
      else: reply_list[reply_id].append(review)
  \<close>
\<close>

definition store_reply ::
  "int option \<Rightarrow> review \<Rightarrow> (int, review list) dict \<Rightarrow> (int, review list) dict" where
  "store_reply reply_id review reply_list =
     (case reply_id of
        None \<Rightarrow> reply_list
      | Some k \<Rightarrow>
          (case map_of reply_list k of
             None \<Rightarrow> AList.update k [review] reply_list
           | Some l \<Rightarrow> AList.update k (l @ [review]) reply_list))"

text \<open>Lines 71--87: a public review with a parent goes into \<open>replies\<close>.\<close>

definition store_base_reply :: "review \<Rightarrow> scan \<Rightarrow> error + scan" where
  "store_base_reply review s =
     (case base_reply_to_id review of
        None \<Rightarrow> Inr s
      | Some parent_id \<Rightarrow>
          if \<not> dict_has (replies s) parent_id then
            Inr (s\<lparr>replies := AList.update parent_id [review] (replies s),
                   reply_timestamps :=
                     AList.update parent_id (timestamp review) (reply_timestamps s)\<rparr>)
          else
            bind_err (dict_get (replies s) parent_id) (\<lambda>l.
            bind_err (dict_get (reply_timestamps s) parent_id) (\<lambda>t.
              Inr (s\<lparr>replies := AList.update parent_id (l @ [review]) (replies s),
                     reply_timestamps :=
                       AList.update parent_id (max t (timestamp review))
                         (reply_timestamps s)\<rparr>))))"

text \<open>The body of the loop over \<^verbatim>\<open>all_reviews\<close> (lines 63--101).\<close>

definition scan_review :: "review \<Rightarrow> scan \<Rightarrow> error + scan" where
  "scan_review review s0 =
     (let s1 = s0\<lparr>top_attr := AList.update (pk review) [] (top_attr s0),
                  bottom_attr := AList.update (pk review) [] (bottom_attr s0)\<rparr>
      in
      bind_err
        (if public review
         then store_base_reply review (s1\<lparr>public_reviews := public_reviews s1 @ [review]\<rparr>)
         else Inr s1)
        (\<lambda>s2.
           if public review then
             Inr (s2\<lparr>reviews_id_map := AList.update (pk review) review (reviews_id_map s2),
                    body_top_replies :=
                      store_reply (body_top_reply_to_id review) review (body_top_replies s2),
                    body_bottom_replies :=
                      store_reply (body_bottom_reply_to_id review) review
                        (body_bottom_replies s2)\<rparr>)
           else Inr s2))"

definition scan_reviews :: "review list \<Rightarrow> error + scan" where
  "scan_reviews all_reviews = for_each scan_review all_reviews scan_init"

text \<open>
  An entry (lines 111--117). \<open>diff_comments\<close> holds addresses of comment objects. The
  entries are shared between the list \<^verbatim>\<open>entries\<close> and the dictionary
  \<^verbatim>\<open>reviews_entry_map\<close>, so the dictionary maps a review key to the position of its
  entry in the list.
\<close>

record entry =
  entry_review :: review
  diff_comments :: "nat list"
  entry_timestamp :: int

definition new_entry :: "review \<Rightarrow> entry" where
  "new_entry review =
     \<lparr>entry_review = review, diff_comments = [], entry_timestamp = timestamp review\<rparr>"

definition add_entry ::
  "review \<Rightarrow> entry list \<times> (int, nat) dict \<Rightarrow> entry list \<times> (int, nat) dict" where
  "add_entry review st =
     (case st of (entries, reviews_entry_map) \<Rightarrow>
        if \<not> is_reply review then
          (entries @ [new_entry review],
           AList.update (pk review) (length entries) reviews_entry_map)
        else (entries, reviews_entry_map))"

definition build_entries :: "review list \<Rightarrow> entry list \<times> (int, nat) dict" where
  "build_entries public_revs = fold add_entry public_revs ([], [])"

text \<open>
  Lines 122--125, for one of the two attributes: every key of the dictionary must be the
  key of a public review, whose attribute is set to the list. The dictionary is walked in
  insertion order; Python leaves the order open, and the outcome does not depend on it
  (each key is set once, and any missing key raises \<^verbatim>\<open>KeyError\<close>).
\<close>

definition link_replies ::
  "(int, review) dict \<Rightarrow> (int, review list) dict \<Rightarrow> (int, review list) dict
     \<Rightarrow> error + (int, review list) dict" where
  "link_replies id_map reply_list attr =
     for_each
       (\<lambda>(reply_id, rs) attr.
          bind_err (dict_get id_map reply_id) (\<lambda>target. Inr (AList.update (pk target) rs attr)))
       reply_list attr"

text \<open>
  The query on the join table (lines 139--147): the rows whose review is one of
  \<^verbatim>\<open>review_ids\<close>, the keys of \<^verbatim>\<open>reviews_id_map\<close>. The table is given in the order in
  which the database returns its rows for the ordering of line 130.
\<close>

definition fetch_rows :: "join_row list \<Rightarrow> (int, review) dict \<Rightarrow> join_row list" where
  "fetch_rows through id_map = filter (\<lambda>obj. dict_has id_map (review_id obj)) through"

text \<open>First pass (lines 151--156): the comment objects and \<^verbatim>\<open>comment_map\<close>.\<close>

definition init_heap :: "join_row list \<Rightarrow> comment_obj list" where
  "init_heap objs = map (\<lambda>obj. new_comment_obj (row_comment obj)) objs"

definition build_comment_map :: "join_row list \<Rightarrow> (int, nat) dict" where
  "build_comment_map objs =
     fold (\<lambda>(i, obj) comment_map. AList.update (comment_pk (row_comment obj)) i comment_map)
       (enumerate 0 objs) []"

text \<open>
  The three writes of the second pass: \<^verbatim>\<open>comment._review = parent_review\<close> on the object
  at \<open>i\<close>, \<^verbatim>\<open>replied_comment._replies.append(comment)\<close>, and
  \<^verbatim>\<open>entry['comments'][key].append(comment)\<close>.
\<close>

definition set_review :: "nat \<Rightarrow> int \<Rightarrow> comment_obj list \<Rightarrow> comment_obj list" where
  "set_review i p heap = heap[i := (heap ! i)\<lparr>c_review := Some p\<rparr>]"

definition append_reply :: "nat \<Rightarrow> nat \<Rightarrow> comment_obj list \<Rightarrow> comment_obj list" where
  "append_reply replied i heap =
     heap[replied := (heap ! replied)\<lparr>c_replies := c_replies (heap ! replied) @ [i]\<rparr>]"

definition append_comment :: "nat \<Rightarrow> nat \<Rightarrow> entry list \<Rightarrow> entry list" where
  "append_comment e i entries =
     entries[e := (entries ! e)\<lparr>diff_comments := diff_comments (entries ! e) @ [i]\<rparr>]"

text \<open>
  Second pass (lines 158--183), for the row at position \<open>i\<close>. The \<^verbatim>\<open>assert\<close>
  statements are executed (the interpreter does not run with \<^verbatim>\<open>-O\<close>).
\<close>

definition attach_comment ::
  "(int, review) dict \<Rightarrow> (int, nat) dict \<Rightarrow> (int, nat) dict \<Rightarrow> nat \<times> join_row
     \<Rightarrow> comment_obj list \<times> entry list \<Rightarrow> error + comment_obj list \<times> entry list" where
  "attach_comment id_map reviews_entry_map comment_map row st =
     (case row of (i, obj) \<Rightarrow> case st of (heap0, entries) \<Rightarrow>
        if \<not> dict_has id_map (review_id obj) then Inl AssertionError
        else
          bind_err (dict_get id_map (review_id obj)) (\<lambda>parent_review.
            let heap = set_review i (pk parent_review) heap0 in
            if is_reply parent_review then
              if dict_has reviews_entry_map (review_id obj) then Inl AssertionError
              else if \<not> dict_has_opt reviews_entry_map (base_reply_to_id parent_review)
                then Inl AssertionError
              else if comment_is_reply (heap ! i) then
                bind_err (dict_get_opt comment_map (reply_to_id (heap ! i))) (\<lambda>replied.
                  Inr (append_reply replied i heap, entries))
              else Inr (heap, entries)
            else if public parent_review then
              if \<not> dict_has reviews_entry_map (review_id obj) then Inl AssertionError
              else
                bind_err (dict_get reviews_entry_map (review_id obj)) (\<lambda>e.
                  Inr (heap, append_comment e i entries))
            else Inr (heap, entries)))"

text \<open>
  What the call leaves behind: the returned list of entries, and the objects reachable from
  it, that is the reply attributes of the reviews and the store of comment objects.
\<close>

record result =
  res_entries :: "entry list"
  top_replies_of :: "(int, review list) dict"
  bottom_replies_of :: "(int, review list) dict"
  res_heap :: "comment_obj list"

text \<open>
  The function, on the reviews of the request (\<^verbatim>\<open>review_request.reviews\<close>, in fetch order)
  and the join table. The loop of line 128 has one iteration, for diff comments.
\<close>

definition get_all_review_comments :: "join_row list \<Rightarrow> review list \<Rightarrow> error + result" where
  "get_all_review_comments through all_reviews =
     bind_err (scan_reviews all_reviews) (\<lambda>s.
       case build_entries (public_reviews s) of (entries0, reviews_entry_map) \<Rightarrow>
       bind_err (link_replies (reviews_id_map s) (body_top_replies s) (top_attr s)) (\<lambda>tops.
       bind_err (link_replies (reviews_id_map s) (body_bottom_replies s) (bottom_attr s))
         (\<lambda>bottoms.
       let objs = fetch_rows through (reviews_id_map s);
           comment_map = build_comment_map objs
       in
       bind_err
         (for_each (attach_comment (reviews_id_map s) reviews_entry_map comment_map)
            (enumerate 0 objs) (init_heap objs, entries0))
         (\<lambda>(heap1, entries1).
            Inr \<lparr>res_entries = entries1, top_replies_of = tops, bottom_replies_of = bottoms,
                 res_heap = heap1\<rparr>))))"

section \<open>index\_review\_request\<close>

text \<open>
  A review request with what the indexer reads from it. \<open>full_name\<close> is the result of
  Django's \<^verbatim>\<open>get_full_name()\<close>; \<open>diffset_history\<close> is \<^verbatim>\<open>None\<close> or the file diffs of
  its diff sets; \<open>reviews\<close> is the result of \<^verbatim>\<open>reviews.select_related('user')\<close>.
\<close>

record user =
  username :: string
  full_name :: string

record filediff =
  source_file :: string
  dest_file :: string

record review_request =
  request_id :: int
  summary :: string
  description :: string
  testing_done :: string
  changenum :: "int option"
  bugs_closed :: string
  submitter :: user
  diffset_history :: "filediff list list option"
  reviews :: "review list"

text \<open>A Lucene field: name, value, whether it is stored, and how it is indexed.\<close>

datatype index_mode = NO | TOKENIZED | UN_TOKENIZED | ANALYZED | NOT_ANALYZED

record field =
  field_name :: string
  field_value :: string
  field_store :: bool
  field_index :: index_mode

type_synonym document = "field list"

text \<open>
  What the module takes from its environment: the two version flags computed at import
  time, the join table of the database, the slots of the hash table of a set of strings
  (see \<open>set_walk\<close>), the number of frames that the call stack has left for
  \<^verbatim>\<open>flatten_comment\<close> where line 342 calls it (the recursion limit less the frames in
  use there, that of the \<^verbatim>\<open>lambda\<close> included), and the two operations of the Lucene
  writer. A writer operation returns the writer as it leaves it and the exception it
  throws, if any. The calls into Django and Lucene nest to a depth that does not depend on
  the data; the stack is taken to have room for them.
\<close>

record 'w env =
  lucene_is_2x :: bool
  lucene_is_3x :: bool
  through_table :: "join_row list"
  set_slot :: "string list \<Rightarrow> string \<Rightarrow> nat"
  frames_left :: nat
  deleteDocuments :: "string \<times> string \<Rightarrow> 'w \<Rightarrow> 'w \<times> error option"
  addDocument :: "document \<Rightarrow> 'w \<Rightarrow> 'w \<times> error option"

text \<open>Lines 294--301.\<close>

definition index_modes :: "'w env \<Rightarrow> error + index_mode \<times> index_mode" where
  "index_modes env =
     (if lucene_is_2x env then Inr (TOKENIZED, UN_TOKENIZED)
      else if lucene_is_3x env then Inr (ANALYZED, NOT_ANALYZED)
      else Inl AssertionError)"

text \<open>Line 320: \<^verbatim>\<open>' '.join(request.bugs_closed.split(','))\<close>.\<close>

definition bugs_of :: "review_request \<Rightarrow> string" where
  "bugs_of request = join '' '' (split (CHR '','') (bugs_closed request))"

text \<open>Lines 325--326.\<close>

definition name_of :: "review_request \<Rightarrow> string" where
  "name_of request = join '' '' [username (submitter request), full_name (submitter request)]"

text \<open>
  The body of the loop over the entries (lines 337--342), from the text collected so far.
  Reading the reply attributes comes first, then the comment chains are flattened from
  left to right, each with \<open>frames\<close> frames left.
\<close>

definition review_text :: "review \<Rightarrow> string" where
  "review_text x = join nl [body_top x, body_bottom x]"

definition flatten_entry :: "nat \<Rightarrow> result \<Rightarrow> entry \<Rightarrow> string \<Rightarrow> error + string" where
  "flatten_entry frames res e comment_text0 =
     (let review = entry_review e;
          text1 = join nl [comment_text0, body_top review, body_bottom review]
      in
      bind_err (attr_get (top_replies_of res) (pk review)) (\<lambda>tops.
      bind_err (attr_get (bottom_replies_of res) (pk review)) (\<lambda>bottoms.
        let review_top_replies = join nl (map review_text tops);
            review_bot_replies = join nl (map review_text bottoms);
            text2 = join nl [text1, review_top_replies, review_bot_replies]
        in
        bind_err (map_err (flatten_comment frames (res_heap res)) (diff_comments e)) (\<lambda>ts.
          Inr (text2 @ join nl ts)))))"

text \<open>The loop over the entries (lines 335--342).\<close>

definition flatten_entries :: "nat \<Rightarrow> result \<Rightarrow> entry list \<Rightarrow> string \<Rightarrow> error + string" where
  "flatten_entries frames res comment_entries comment_text0 =
     for_each (flatten_entry frames res) comment_entries comment_text0"

text \<open>Lines 349--357.\<close>

definition filediff_paths :: "filediff \<Rightarrow> string list" where
  "filediff_paths fd =
     (if source_file fd \<noteq> [] then [source_file fd] else []) @
     (if dest_file fd \<noteq> [] then [dest_file fd] else [])"

definition collect_files :: "review_request \<Rightarrow> string list" where
  "collect_files request =
     (case diffset_history request of
        None \<Rightarrow> []
      | Some diffsets \<Rightarrow> concat (map (\<lambda>diffset. concat (map filediff_paths diffset)) diffsets))"

definition aggregate_files_of :: "'w env \<Rightarrow> review_request \<Rightarrow> string" where
  "aggregate_files_of env request =
     join nl (set_walk (set_slot env) (set_of_list (collect_files request)))"

text \<open>The document of lines 307--376, given the flattened comment text.\<close>

definition make_document ::
  "'w env \<Rightarrow> index_mode \<times> index_mode \<Rightarrow> review_request \<Rightarrow> string \<Rightarrow> document" where
  "make_document env modes request comment_text0 =
     (case modes of (lucene_tokenized, lucene_un_tokenized) \<Rightarrow>
      let bugs = bugs_of request;
          name = name_of request;
          aggregate_files = aggregate_files_of env request;
          text = join nl [summary request, description request,
                          unicode_opt (changenum request), testing_done request, bugs, name,
                          comment_text0, aggregate_files]
      in
      [\<lparr>field_name = ''id'', field_value = str_int (request_id request),
         field_store = True, field_index = NO\<rparr>,
       \<lparr>field_name = ''summary'', field_value = summary request,
         field_store = False, field_index = lucene_tokenized\<rparr>] @
      (if truthy_int (changenum request)
       then [\<lparr>field_name = ''changenum'', field_value = unicode_opt (changenum request),
               field_store = False, field_index = lucene_tokenized\<rparr>]
       else []) @
      [\<lparr>field_name = ''bug'', field_value = bugs,
         field_store = False, field_index = lucene_tokenized\<rparr>,
       \<lparr>field_name = ''author'', field_value = name,
         field_store = False, field_index = lucene_tokenized\<rparr>,
       \<lparr>field_name = ''username'', field_value = username (submitter request),
         field_store = False, field_index = lucene_un_tokenized\<rparr>,
       \<lparr>field_name = ''comment'', field_value = comment_text0,
         field_store = False, field_index = lucene_tokenized\<rparr>,
       \<lparr>field_name = ''file'', field_value = aggregate_files,
         field_store = False, field_index = lucene_tokenized\<rparr>,
       \<lparr>field_name = ''text'', field_value = text,
         field_store = False, field_index = lucene_tokenized\<rparr>])"

text \<open>
  The document that \<^verbatim>\<open>index_review_request\<close> builds before it hands it to the writer:
  an exception or a document.
\<close>

definition build_document :: "'w env \<Rightarrow> review_request \<Rightarrow> error + document" where
  "build_document env request =
     bind_err (index_modes env) (\<lambda>modes.
     bind_err (get_all_review_comments (through_table env) (reviews request)) (\<lambda>res.
     bind_err (flatten_entries (frames_left env) res (res_entries res) []) (\<lambda>comment_text0.
       Inr (make_document env modes request comment_text0))))"


section \<open>The loop of handle\_noargs\<close>






section \<open>Notions used in the statements\<close>

text \<open>
  The replies below a comment nest at most \<open>n\<close> deep, the comment counted: below each
  of its replies they nest at most \<open>n - 1\<close> deep. A comment without replies nests one
  deep.
\<close>

fun chain_within :: "nat \<Rightarrow> comment_obj list \<Rightarrow> nat \<Rightarrow> bool" where
  "chain_within 0 heap c = False"
| "chain_within (Suc n) heap c = (\<forall>r \<in> set (c_replies (heap ! c)). chain_within n heap r)"

text \<open>
  A path of one or more steps, each from a comment to one of its replies. The reply chain
  of a comment contains a cycle when the comment, or a comment reached from it, lies on a
  path back to itself.
\<close>

inductive reply_path :: "comment_obj list \<Rightarrow> nat \<Rightarrow> nat \<Rightarrow> bool" for heap where
  reply_step: "r \<in> set (c_replies (heap ! a)) \<Longrightarrow> reply_path heap a r"
| reply_trans: "r \<in> set (c_replies (heap ! a)) \<Longrightarrow> reply_path heap r b \<Longrightarrow> reply_path heap a b"

definition has_cycle :: "comment_obj list \<Rightarrow> nat \<Rightarrow> bool" where
  "has_cycle heap c = (\<exists>b. (b = c \<or> reply_path heap c b) \<and> reply_path heap b b)"

text \<open>
  The comments on which \<^verbatim>\<open>flatten_comment\<close> is entered during a call, in order, read
  off the same lines: the comment of the call, then for each reply in turn the comments of
  the call on that reply, up to and including the first such call that raises. A call for
  which no frame is left enters nothing.
\<close>

fun reply_calls :: "(nat \<Rightarrow> nat list) \<Rightarrow> (nat \<Rightarrow> error + string) \<Rightarrow> nat list \<Rightarrow> nat list" where
  "reply_calls calls run [] = []"
| "reply_calls calls run (r # rs) =
     calls r @ (case run r of Inl err \<Rightarrow> [] | Inr t \<Rightarrow> reply_calls calls run rs)"

fun flatten_calls :: "nat \<Rightarrow> comment_obj list \<Rightarrow> nat \<Rightarrow> nat list" where
  "flatten_calls 0 heap c = []"
| "flatten_calls (Suc frames) heap c =
     c # reply_calls (flatten_calls frames heap) (flatten_comment frames heap)
           (c_replies (heap ! c))"

text \<open>
  What the second pass does with a row, read off the branches of \<open>attach_comment\<close>: it
  raises, or appends the comment to the reply list of the object at an address, or appends
  it to the entry at a position, or leaves it out. Which of these happens depends only on
  the row and the three dictionaries.
\<close>

datatype row_action = Raise error | Reply_to nat | To_entry nat | Drop

definition row_action ::
  "(int, review) dict \<Rightarrow> (int, nat) dict \<Rightarrow> (int, nat) dict \<Rightarrow> join_row \<Rightarrow> row_action" where
  "row_action id_map reviews_entry_map comment_map obj =
     (case map_of id_map (review_id obj) of
        None \<Rightarrow> Raise AssertionError
      | Some parent_review \<Rightarrow>
          if is_reply parent_review then
            if dict_has reviews_entry_map (review_id obj) then Raise AssertionError
            else if \<not> dict_has_opt reviews_entry_map (base_reply_to_id parent_review)
              then Raise AssertionError
            else
              (case reply_to_id (row_comment obj) of
                 None \<Rightarrow> Drop
               | Some t \<Rightarrow>
                   (case map_of comment_map t of
                      None \<Rightarrow> Raise (KeyError (Some t))
                    | Some replied \<Rightarrow> Reply_to replied))
          else if public parent_review then
            (case map_of reviews_entry_map (review_id obj) of
               None \<Rightarrow> Raise AssertionError
             | Some e \<Rightarrow> To_entry e)
          else Drop)"

text \<open>
  The store and the entries after a row that does not raise: the owning review is noted on
  the object of the row, and the address of the object is appended where the action says.
\<close>

definition row_heap ::
  "(int, review) dict \<Rightarrow> (int, nat) dict \<Rightarrow> (int, nat) dict \<Rightarrow> nat \<times> join_row
     \<Rightarrow> comment_obj list \<Rightarrow> comment_obj list" where
  "row_heap id_map reviews_entry_map comment_map row heap0 =
     (case row of (i, obj) \<Rightarrow>
        let heap = (case map_of id_map (review_id obj) of
                      None \<Rightarrow> heap0
                    | Some parent_review \<Rightarrow> set_review i (pk parent_review) heap0)
        in
        case row_action id_map reviews_entry_map comment_map obj of
          Reply_to replied \<Rightarrow> append_reply replied i heap
        | Raise err \<Rightarrow> heap0
        | To_entry e \<Rightarrow> heap
        | Drop \<Rightarrow> heap)"

definition row_entries ::
  "(int, review) dict \<Rightarrow> (int, nat) dict \<Rightarrow> (int, nat) dict \<Rightarrow> nat \<times> join_row
     \<Rightarrow> entry list \<Rightarrow> entry list" where
  "row_entries id_map reviews_entry_map comment_map row entries =
     (case row of (i, obj) \<Rightarrow>
        case row_action id_map reviews_entry_map comment_map obj of
          To_entry e \<Rightarrow> append_comment e i entries
        | Raise err \<Rightarrow> entries
        | Reply_to replied \<Rightarrow> entries
        | Drop \<Rightarrow> entries)"

fun is_raise :: "row_action \<Rightarrow> bool" where
  "is_raise (Raise err) = True"
| "is_raise act = False"

text \<open>
  The rows that the query on the join table returns, in terms of the reviews: the rows of
  the public reviews of the request.
\<close>

definition fetched :: "join_row list \<Rightarrow> review list \<Rightarrow> join_row list" where
  "fetched through all_reviews =
     filter (\<lambda>obj. \<exists>r \<in> set all_reviews. public r \<and> pk r = review_id obj) through"

text \<open>
  The three dictionaries of the second pass as functions of the input, and with them the
  action of the second pass on a fetched row.
\<close>

definition id_map_of :: "review list \<Rightarrow> (int, review) dict" where
  "id_map_of all_reviews =
     (case scan_reviews all_reviews of Inl err \<Rightarrow> [] | Inr s \<Rightarrow> reviews_id_map s)"

definition entry_map_of :: "review list \<Rightarrow> (int, nat) dict" where
  "entry_map_of all_reviews = snd (build_entries (filter public all_reviews))"

definition comment_map_of :: "join_row list \<Rightarrow> review list \<Rightarrow> (int, nat) dict" where
  "comment_map_of through all_reviews = build_comment_map (fetched through all_reviews)"

definition action_of :: "join_row list \<Rightarrow> review list \<Rightarrow> join_row \<Rightarrow> row_action" where
  "action_of through all_reviews =
     row_action (id_map_of all_reviews) (entry_map_of all_reviews)
       (comment_map_of through all_reviews)"

text \<open>
  The conditions under which the code reaches a row and does not raise on it, in terms of
  the input. The base review of a reply-review is an entry when it is a public top-level
  review of the request. The keys of the fetched comments are the keys of
  \<^verbatim>\<open>comment_map\<close>. The body replies can be linked (lines 122--125) when every review
  that a public review names as the target of a body reply is a public review of the
  request. A row passes the second loop when its review, if it is a reply-review, has a
  base review that is an entry, and its comment then answers nothing or a fetched comment.
\<close>

definition base_is_entry :: "review list \<Rightarrow> review \<Rightarrow> bool" where
  "base_is_entry rs r =
     (\<exists>b \<in> set rs. public b \<and> \<not> is_reply b \<and> base_reply_to_id r = Some (pk b))"

definition fetched_keys :: "join_row list \<Rightarrow> review list \<Rightarrow> int set" where
  "fetched_keys through rs = (\<lambda>obj. comment_pk (row_comment obj)) ` set (fetched through rs)"

definition targets_public :: "review list \<Rightarrow> bool" where
  "targets_public rs =
     (\<forall>r \<in> set rs. public r \<longrightarrow>
        (\<forall>k. body_top_reply_to_id r = Some k \<or> body_bottom_reply_to_id r = Some k \<longrightarrow>
           (\<exists>t \<in> set rs. public t \<and> pk t = k)))"

definition row_passes :: "join_row list \<Rightarrow> review list \<Rightarrow> join_row \<Rightarrow> bool" where
  "row_passes through rs obj =
     (\<forall>r \<in> set rs. public r \<and> pk r = review_id obj \<and> is_reply r \<longrightarrow>
        base_is_entry rs r \<and>
        (\<forall>t. reply_to_id (row_comment obj) = Some t \<longrightarrow> t \<in> fetched_keys through rs))"

text \<open>
  What an entry adds to the comment text, given the flattened chains \<open>ts\<close> of its
  comments: a newline before each of the body top and the body bottom of its review, the
  joined bodies of the public reviews that answer the top, and those of the public reviews
  that answer the bottom; then the chains, joined by newlines, with no newline before them.
\<close>

definition entry_text :: "review list \<Rightarrow> entry \<Rightarrow> string list \<Rightarrow> string" where
  "entry_text rs e ts =
     nl @ body_top (entry_review e) @ nl @ body_bottom (entry_review e) @ nl @
     join nl (map (\<lambda>x. body_top x @ nl @ body_bottom x)
       (filter (\<lambda>r. public r \<and> body_top_reply_to_id r = Some (pk (entry_review e))) rs)) @
     nl @
     join nl (map (\<lambda>x. body_top x @ nl @ body_bottom x)
       (filter (\<lambda>r. public r \<and> body_bottom_reply_to_id r = Some (pk (entry_review e))) rs)) @
     join nl ts"

text \<open>
  The comment whose reply list receives the comment of a fetched row, if any, and the
  comment reached from an address by going to that comment \<open>k\<close> times.
\<close>

definition parent_of :: "join_row list \<Rightarrow> review list \<Rightarrow> nat \<Rightarrow> nat option" where
  "parent_of through all_reviews a =
     (case action_of through all_reviews (fetched through all_reviews ! a) of
        Reply_to replied \<Rightarrow> Some replied
      | Raise err \<Rightarrow> None
      | To_entry e \<Rightarrow> None
      | Drop \<Rightarrow> None)"

fun climb :: "(nat \<Rightarrow> nat option) \<Rightarrow> nat \<Rightarrow> nat \<Rightarrow> nat option" where
  "climb par 0 a = Some a"
| "climb par (Suc k) a = (case par a of None \<Rightarrow> None | Some b \<Rightarrow> climb par k b)"

section \<open>Example inputs\<close>

text \<open>
  A backend that keeps the documents in a list, with an empty join table and room for
  1000 frames, and a request with two bugs, a change number of zero, two diff sets that
  both touch \<^verbatim>\<open>main.cc\<close> and nothing else, and no reviews. The same request with a
  second file in the second diff set.
\<close>

definition example_env :: "document list env" where
  "example_env =
     \<lparr>lucene_is_2x = False, lucene_is_3x = True, through_table = [],
      set_slot = (\<lambda>s x. 0), frames_left = 1000,
      deleteDocuments = (\<lambda>t w. (w, None)), addDocument = (\<lambda>d w. (w @ [d], None))\<rparr>"

definition example_request :: review_request where
  "example_request =
     \<lparr>request_id = 7, summary = ''Fix crash'', description = ''Null check'',
      testing_done = ''unit tests'', changenum = Some 0, bugs_closed = ''123,456'',
      submitter = \<lparr>username = ''bob'', full_name = ''Bob Lee''\<rparr>,
      diffset_history =
        Some [[\<lparr>source_file = ''main.cc'', dest_file = ''main.cc''\<rparr>],
              [\<lparr>source_file = ''main.cc'', dest_file = ''main.cc''\<rparr>]],
      reviews = []\<rparr>"

definition two_file_request :: review_request where
  "two_file_request =
     example_request\<lparr>diffset_history :=
       Some [[\<lparr>source_file = ''main.cc'', dest_file = ''main.cc''\<rparr>],
             [\<lparr>source_file = ''main.cc'', dest_file = ''util.h''\<rparr>]]\<rparr>"

text \<open>
  A review and a reply to it, and the store of two comments A and B, each in the reply
  list of the other, that reconstruction builds when both belong to the reply-review and
  each names the other as its \<^verbatim>\<open>reply_to\<close>.
\<close>

definition top_review :: review where
  "top_review =
     \<lparr>pk = 1, public = True, base_reply_to_id = None, body_top_reply_to_id = None,
      body_bottom_reply_to_id = None, timestamp = 100, body_top = ''Looks good'',
      body_bottom = ''Ship it''\<rparr>"

definition reply_review :: review where
  "reply_review =
     \<lparr>pk = 2, public = True, base_reply_to_id = Some 1, body_top_reply_to_id = None,
      body_bottom_reply_to_id = Some 1, timestamp = 200, body_top = [],
      body_bottom = ''Thanks''\<rparr>"

definition cycle_heap :: "comment_obj list" where
  "cycle_heap =
     [\<lparr>comment_pk = 10, comment_text = ''A'', reply_to_id = Some 11,
        c_replies = [1], c_review = Some 2\<rparr>,
      \<lparr>comment_pk = 11, comment_text = ''B'', reply_to_id = Some 10,
        c_replies = [0], c_review = Some 2\<rparr>]"




text \<open>
  A discussion: a public review, a draft, and a public reply-review; a comment 10 on
  the review, a comment on the draft, and two comments on the reply-review, of which one
  answers comment 10 and the other answers nothing. The result of reconstruction on it.
\<close>

definition draft_review :: review where
  "draft_review =
     \<lparr>pk = 3, public = False, base_reply_to_id = Some 1, body_top_reply_to_id = Some 1,
      body_bottom_reply_to_id = None, timestamp = 150, body_top = ''Not yet'',
      body_bottom = []\<rparr>"

definition thread_reviews :: "review list" where
  "thread_reviews = [top_review, draft_review, reply_review]"

definition thread_rows :: "join_row list" where
  "thread_rows =
     [\<lparr>review_id = 1,
        row_comment = \<lparr>comment_pk = 10, comment_text = ''Rename this'', reply_to_id = None\<rparr>\<rparr>,
      \<lparr>review_id = 3,
        row_comment = \<lparr>comment_pk = 13, comment_text = ''Hm'', reply_to_id = Some 10\<rparr>\<rparr>,
      \<lparr>review_id = 2,
        row_comment = \<lparr>comment_pk = 11, comment_text = ''Done'', reply_to_id = Some 10\<rparr>\<rparr>,
      \<lparr>review_id = 2,
        row_comment = \<lparr>comment_pk = 12, comment_text = ''Stray'', reply_to_id = None\<rparr>\<rparr>]"

definition thread_env :: "document list env" where
  "thread_env = example_env\<lparr>through_table := thread_rows\<rparr>"

definition thread_request :: review_request where
  "thread_request = example_request\<lparr>request_id := 9, reviews := thread_reviews\<rparr>"

text \<open>The same database with a call stack that has one frame left at line 342.\<close>

definition shallow_env :: "document list env" where
  "shallow_env = thread_env\<lparr>frames_left := 1\<rparr>"

text \<open>The comment text of the discussion.\<close>

definition thread_text :: string where
  "thread_text =
     nl @ ''Looks good'' @ nl @ ''Ship it'' @ nl @ [] @ nl @ ([] @ nl @ ''Thanks'') @
     (''Rename this'' @ nl @ ''Done'')"

definition thread_result :: result where
  "thread_result =
     \<lparr>res_entries =
        [\<lparr>entry_review = top_review, diff_comments = [0], entry_timestamp = 100\<rparr>],
      top_replies_of = [(1, []), (3, []), (2, [])],
      bottom_replies_of = [(1, [reply_review]), (3, []), (2, [])],
      res_heap =
        [\<lparr>comment_pk = 10, comment_text = ''Rename this'', reply_to_id = None,
           c_replies = [1], c_review = Some 1\<rparr>,
         \<lparr>comment_pk = 11, comment_text = ''Done'', reply_to_id = Some 10,
           c_replies = [], c_review = Some 2\<rparr>,
         \<lparr>comment_pk = 12, comment_text = ''Stray'', reply_to_id = None,
           c_replies = [], c_review = Some 2\<rparr>]\<rparr>"

text \<open>A reply-review whose \<^verbatim>\<open>base_reply_to\<close> is not a review of the request.\<close>

definition stray_review :: review where
  "stray_review =
     \<lparr>pk = 5, public = True, base_reply_to_id = Some 7, body_top_reply_to_id = None,
      body_bottom_reply_to_id = None, timestamp = 300, body_top = [], body_bottom = []\<rparr>"

text \<open>
  Three rows whose comment answers a comment 99 that is in no row: a row of the
  reply-review, a row of the reply-review without a base, and a row of the top-level
  review. The result of reconstruction on the top-level review and its row.
\<close>

definition missing_row :: join_row where
  "missing_row =
     \<lparr>review_id = 2,
      row_comment = \<lparr>comment_pk = 11, comment_text = ''B'', reply_to_id = Some 99\<rparr>\<rparr>"

definition stray_row :: join_row where
  "stray_row =
     \<lparr>review_id = 5,
      row_comment = \<lparr>comment_pk = 12, comment_text = ''C'', reply_to_id = Some 99\<rparr>\<rparr>"

definition top_row :: join_row where
  "top_row =
     \<lparr>review_id = 1,
      row_comment = \<lparr>comment_pk = 13, comment_text = ''D'', reply_to_id = Some 99\<rparr>\<rparr>"

definition top_row_result :: result where
  "top_row_result =
     \<lparr>res_entries =
        [\<lparr>entry_review = top_review, diff_comments = [0], entry_timestamp = 100\<rparr>],
      top_replies_of = [(1, [])],
      bottom_replies_of = [(1, [])],
      res_heap =
        [\<lparr>comment_pk = 13, comment_text = ''D'', reply_to_id = Some 99,
           c_replies = [], c_review = Some 1\<rparr>]\<rparr>"

text \<open>A public reply to the review that answers the top of its body.\<close>

definition answer_review :: review where
  "answer_review =
     \<lparr>pk = 4, public = True, base_reply_to_id = Some 1, body_top_reply_to_id = Some 1,
      body_bottom_reply_to_id = None, timestamp = 250, body_top = ''Agreed'',
      body_bottom = []\<rparr>"

section \<open>Strings\<close>

lemma split_not_Nil: "split sep s \<noteq> []"
  by (induction s) (auto split: list.splits)

lemma join_Cons_nonempty: "ys \<noteq> [] \<Longrightarrow> join sep (x # ys) = x @ sep @ join sep ys"
  by (cases ys) simp_all

text \<open>Splitting at a character and joining with another replaces the one by the other.\<close>

lemma join_split_replace:
  "join [b] (split a s) = map (\<lambda>c. if c = a then b else c) s"
proof (induction s)
  case Nil
  show ?case by simp
next
  case (Cons c cs)
  obtain w ws where sp: "split a cs = w # ws"
    using split_not_Nil [of a cs] by (cases "split a cs") auto
  show ?case
  proof (cases "c = a")
    case True
    then show ?thesis using Cons.IH by (simp add: join_Cons_nonempty split_not_Nil)
  next
    case False
    have "join [b] ((c # w) # ws) = c # join [b] (w # ws)"
      by (cases ws) simp_all
    then show ?thesis using False Cons.IH sp by simp
  qed
qed

section \<open>Loops\<close>

lemma bind_err_Inr_iff:
  "bind_err m f = Inr y \<longleftrightarrow> (\<exists>x. m = Inr x \<and> f x = Inr y)"
  by (cases m) (simp_all add: bind_err_def)

lemma for_each_append:
  "for_each body (xs @ ys) s = bind_err (for_each body xs s) (for_each body ys)"
  by (induction xs arbitrary: s) (simp_all add: bind_err_def split: sum.splits)

lemma for_each_cong_set:
  "(\<And>x s. x \<in> set xs \<Longrightarrow> f x s = g x s) \<Longrightarrow> for_each f xs s = for_each g xs s"
  by (induction xs arbitrary: s) (simp_all add: bind_err_def split: sum.splits)

text \<open>
  A loop that adds to its state what a call returns for each element: it returns when all
  calls return, and raises the exception of the calls when one of them raises.
\<close>

lemma for_each_calls_Inr:
  assumes "\<And>x. x \<in> set xs \<Longrightarrow> \<exists>t. f x = Inr t"
  shows "\<exists>y. for_each (\<lambda>x s. bind_err (f x) (\<lambda>t. Inr (g s t))) xs s = Inr y"
  using assms
proof (induction xs arbitrary: s)
  case Nil
  show ?case by simp
next
  case (Cons x xs)
  obtain t where t: "f x = Inr t" using Cons.prems [of x] by auto
  obtain y where "for_each (\<lambda>x s. bind_err (f x) (\<lambda>t. Inr (g s t))) xs (g s t) = Inr y"
    using Cons.IH [of "g s t"] Cons.prems by auto
  then show ?case using t by (simp add: bind_err_def)
qed

lemma for_each_calls_Inl:
  assumes "\<And>x. x \<in> set xs \<Longrightarrow> (\<exists>t. f x = Inr t) \<or> f x = Inl e"
    and "x \<in> set xs" and "f x = Inl e"
  shows "for_each (\<lambda>x s. bind_err (f x) (\<lambda>t. Inr (g s t))) xs s = Inl e"
  using assms
proof (induction xs arbitrary: s)
  case Nil
  then show ?case by simp
next
  case (Cons y ys)
  show ?case
  proof (cases "f y")
    case (Inl e')
    then have "e' = e" using Cons.prems(1) [of y] by auto
    then show ?thesis using Inl by (simp add: bind_err_def)
  next
    case (Inr t)
    then have "x \<in> set ys" using Cons.prems(2,3) by auto
    from Cons.IH [OF _ this Cons.prems(3), of "g s t"] Cons.prems(1)
    show ?thesis using Inr by (simp add: bind_err_def)
  qed
qed

lemma map_err_Inr:
  "(\<And>x. x \<in> set xs \<Longrightarrow> f x = Inr (g x)) \<Longrightarrow> map_err f xs = Inr (map g xs)"
  by (induction xs) (simp_all add: bind_err_def)

lemma map_err_Inl:
  assumes "\<And>x. x \<in> set xs \<Longrightarrow> (\<exists>t. f x = Inr t) \<or> f x = Inl e"
    and "x \<in> set xs" and "f x = Inl e"
  shows "map_err f xs = Inl e"
  using assms
proof (induction xs)
  case Nil
  then show ?case by simp
next
  case (Cons y ys)
  show ?case
  proof (cases "f y")
    case (Inl e')
    then have "e' = e" using Cons.prems(1) [of y] by auto
    then show ?thesis using Inl by (simp add: bind_err_def)
  next
    case (Inr t)
    then have "x \<in> set ys" using Cons.prems(2,3) by auto
    from Cons.IH [OF _ this Cons.prems(3)] Cons.prems(1)
    have "map_err f ys = Inl e" by simp
    then show ?thesis using Inr by (simp add: bind_err_def)
  qed
qed

section \<open>Flattening a comment chain\<close>

lemma flatten_comment_leaf:
  "c_replies (heap ! c) = [] \<Longrightarrow> flatten_comment (Suc n) heap c = Inr (comment_text (heap ! c))"
  by simp

text \<open>
  The call returns a text when the replies nest no deeper than the frames that are left,
  and raises \<^verbatim>\<open>RuntimeError\<close> otherwise.
\<close>

lemma flatten_comment_outcome:
  "(chain_within n heap c \<longrightarrow> (\<exists>t. flatten_comment n heap c = Inr t)) \<and>
   (\<not> chain_within n heap c \<longrightarrow> flatten_comment n heap c = Inl RuntimeError)"
proof (induction n arbitrary: c)
  case 0
  show ?case by simp
next
  case (Suc n)
  show ?case
  proof (cases "chain_within (Suc n) heap c")
    case True
    have "\<exists>y. for_each (\<lambda>reply text. bind_err (flatten_comment n heap reply)
                 (\<lambda>t. Inr (text @ nl @ t))) (c_replies (heap ! c)) (comment_text (heap ! c)) = Inr y"
    proof (rule for_each_calls_Inr)
      fix r assume "r \<in> set (c_replies (heap ! c))"
      then have "chain_within n heap r" using True by simp
      then show "\<exists>t. flatten_comment n heap r = Inr t" using Suc by blast
    qed
    then show ?thesis using True by simp
  next
    case False
    then obtain r where r: "r \<in> set (c_replies (heap ! c))" "\<not> chain_within n heap r"
      by auto
    have "for_each (\<lambda>reply text. bind_err (flatten_comment n heap reply)
                 (\<lambda>t. Inr (text @ nl @ t))) (c_replies (heap ! c)) (comment_text (heap ! c)) =
          Inl RuntimeError"
    proof (rule for_each_calls_Inl [OF _ r(1)])
      fix x assume "x \<in> set (c_replies (heap ! c))"
      show "(\<exists>t. flatten_comment n heap x = Inr t) \<or> flatten_comment n heap x = Inl RuntimeError"
        using Suc [of x] by blast
    next
      show "flatten_comment n heap r = Inl RuntimeError" using Suc [of r] r(2) by blast
    qed
    then show ?thesis using False by simp
  qed
qed

lemma flatten_comment_within:
  "chain_within n heap c \<Longrightarrow> \<exists>t. flatten_comment n heap c = Inr t"
  using flatten_comment_outcome by blast

lemma flatten_comment_beyond:
  "\<not> chain_within n heap c \<Longrightarrow> flatten_comment n heap c = Inl RuntimeError"
  using flatten_comment_outcome by blast

lemma chain_within_mono:
  "chain_within n heap c \<Longrightarrow> n \<le> m \<Longrightarrow> chain_within m heap c"
proof (induction n arbitrary: c m)
  case 0
  then show ?case by simp
next
  case (Suc n)
  then obtain m' where m: "m = Suc m'" "n \<le> m'" by (cases m) auto
  show ?case using Suc.prems(1) Suc.IH [OF _ m(2)] by (simp add: m(1))
qed

text \<open>Once the frames suffice, more of them make no difference.\<close>

lemma flatten_comment_frames:
  "chain_within n heap c \<Longrightarrow> n \<le> m \<Longrightarrow> flatten_comment m heap c = flatten_comment n heap c"
proof (induction n arbitrary: c m)
  case 0
  then show ?case by simp
next
  case (Suc n)
  then obtain m' where m: "m = Suc m'" "n \<le> m'" by (cases m) auto
  have "for_each (\<lambda>reply text. bind_err (flatten_comment m' heap reply)
                 (\<lambda>t. Inr (text @ nl @ t))) (c_replies (heap ! c)) (comment_text (heap ! c)) =
        for_each (\<lambda>reply text. bind_err (flatten_comment n heap reply)
                 (\<lambda>t. Inr (text @ nl @ t))) (c_replies (heap ! c)) (comment_text (heap ! c))"
  proof (rule for_each_cong_set)
    fix r s assume "r \<in> set (c_replies (heap ! c))"
    then have "chain_within n heap r" using Suc.prems(1) by simp
    from Suc.IH [OF this m(2)]
    show "bind_err (flatten_comment m' heap r) (\<lambda>t. Inr (s @ nl @ t)) =
          bind_err (flatten_comment n heap r) (\<lambda>t. Inr (s @ nl @ t))"
      by simp
  qed
  then show ?case by (simp add: m(1))
qed

text \<open>A cycle in the reply chain nests deeper than any number of frames.\<close>

lemma chain_within_path:
  "reply_path heap a b \<Longrightarrow> chain_within n heap a \<Longrightarrow> \<exists>m<n. chain_within m heap b"
proof (induction arbitrary: n rule: reply_path.induct)
  case (reply_step r a)
  then show ?case by (cases n) auto
next
  case (reply_trans r a b)
  from reply_trans.prems reply_trans.hyps(1) obtain k where k: "n = Suc k" "chain_within k heap r"
    by (cases n) auto
  from reply_trans.IH [OF k(2)] obtain m where "m < k" "chain_within m heap b" by blast
  then show ?case using k(1) by (intro exI [of _ m]) simp
qed

lemma chain_within_no_loop:
  "reply_path heap b b \<Longrightarrow> \<not> chain_within n heap b"
proof (induction n rule: less_induct)
  case (less n)
  show ?case
  proof
    assume "chain_within n heap b"
    from chain_within_path [OF less.prems this] obtain m where "m < n" "chain_within m heap b"
      by blast
    then show False using less.IH [OF _ less.prems] by blast
  qed
qed

lemma has_cycle_beyond: "has_cycle heap c \<Longrightarrow> \<not> chain_within n heap c"
proof
  assume cyc: "has_cycle heap c" and w: "chain_within n heap c"
  from cyc obtain b where b: "b = c \<or> reply_path heap c b" and loop: "reply_path heap b b"
    by (auto simp: has_cycle_def)
  from b w obtain m where "chain_within m heap b"
    using chain_within_path by blast
  then show False using chain_within_no_loop [OF loop] by blast
qed

text \<open>
  Claim C6. A comment with exactly two direct replies \<open>r1\<close>, \<open>r2\<close> in that order, neither
  of which has replies, flattens to its text, a newline, the text of \<open>r1\<close>, a newline, and
  the text of \<open>r2\<close>. The call nests two deep, so this is the result whenever the call
  stack has two frames left, which is all that is asked of the interpreter.
\<close>

theorem flatten_comment_two_replies:
  assumes "c_replies (heap ! c) = [r1, r2]"
    and "c_replies (heap ! r1) = []"
    and "c_replies (heap ! r2) = []"
  shows "flatten_comment frames heap c =
           (if 2 \<le> frames
            then Inr (comment_text (heap ! c) @ nl @ comment_text (heap ! r1) @ nl @
                      comment_text (heap ! r2))
            else Inl RuntimeError)"
proof (cases frames)
  case 0
  then show ?thesis by simp
next
  case (Suc n)
  show ?thesis
  proof (cases n)
    case 0
    then show ?thesis using Suc assms(1) by (simp add: bind_err_def)
  next
    case (Suc k)
    have r1: "flatten_comment (Suc k) heap r1 = Inr (comment_text (heap ! r1))"
      using assms(2) by (rule flatten_comment_leaf)
    have r2: "flatten_comment (Suc k) heap r2 = Inr (comment_text (heap ! r2))"
      using assms(3) by (rule flatten_comment_leaf)
    have "flatten_comment (Suc (Suc k)) heap c =
            for_each
              (\<lambda>reply text. bind_err (flatten_comment (Suc k) heap reply)
                 (\<lambda>t. Inr (text @ nl @ t)))
              [r1, r2] (comment_text (heap ! c))"
      by (simp only: flatten_comment.simps(2) assms(1))
    then have "flatten_comment (Suc (Suc k)) heap c =
            Inr (comment_text (heap ! c) @ nl @ comment_text (heap ! r1) @ nl @
                 comment_text (heap ! r2))"
      by (simp add: r1 r2 bind_err_def del: flatten_comment.simps)
    then show ?thesis using Suc \<open>frames = Suc n\<close> by simp
  qed
qed

theorem flatten_comment_two_replies_witness:
  "flatten_comment 1000
     [\<lparr>comment_pk = 1, comment_text = ''fix'', reply_to_id = None,
        c_replies = [1, 2], c_review = None\<rparr>,
      \<lparr>comment_pk = 2, comment_text = ''ok'', reply_to_id = Some 1,
        c_replies = [], c_review = None\<rparr>,
      \<lparr>comment_pk = 3, comment_text = ''done'', reply_to_id = Some 1,
        c_replies = [], c_review = None\<rparr>] 0
   = Inr (''fix'' @ nl @ ''ok'' @ nl @ ''done'')"
  using flatten_comment_two_replies [of
     "[\<lparr>comment_pk = 1, comment_text = ''fix'', reply_to_id = None,
         c_replies = [1, 2], c_review = None\<rparr>,
       \<lparr>comment_pk = 2, comment_text = ''ok'', reply_to_id = Some 1,
         c_replies = [], c_review = None\<rparr>,
       \<lparr>comment_pk = 3, comment_text = ''done'', reply_to_id = Some 1,
         c_replies = [], c_review = None\<rparr>]" 0 1 2 1000]
  by simp

section \<open>Cycles and the recursion limit\<close>

text \<open>
  Claim C1, as amended. \<^verbatim>\<open>flatten_comment\<close> keeps no record of the comments it has
  visited and raises nothing itself. A call returns a text exactly when the replies below
  the comment nest no deeper than the frames that the call stack has left; otherwise the
  interpreter ends it with \<^verbatim>\<open>RuntimeError\<close>. That is the outcome on every chain with
  a cycle, whatever the recursion limit, and equally on a chain without a cycle that
  nests deeper than the limit. Where the frames suffice, the text does not depend on
  their number.
\<close>

theorem flatten_comment_returns_iff:
  "((\<exists>text. flatten_comment frames heap c = Inr text) \<longleftrightarrow> chain_within frames heap c) \<and>
   (\<not> chain_within frames heap c \<longrightarrow> flatten_comment frames heap c = Inl RuntimeError) \<and>
   (has_cycle heap c \<longrightarrow> flatten_comment frames heap c = Inl RuntimeError) \<and>
   (chain_within frames heap c \<longrightarrow>
      (\<forall>more \<ge> frames. flatten_comment more heap c = flatten_comment frames heap c))"
proof (intro conjI impI allI)
  show "(\<exists>text. flatten_comment frames heap c = Inr text) \<longleftrightarrow> chain_within frames heap c"
    using flatten_comment_outcome [of frames heap c]
    by (cases "chain_within frames heap c") auto
next
  assume "\<not> chain_within frames heap c"
  then show "flatten_comment frames heap c = Inl RuntimeError" by (rule flatten_comment_beyond)
next
  assume "has_cycle heap c"
  then have "\<not> chain_within frames heap c" by (rule has_cycle_beyond)
  then show "flatten_comment frames heap c = Inl RuntimeError" by (rule flatten_comment_beyond)
next
  fix more assume "chain_within frames heap c" "frames \<le> more"
  then show "flatten_comment more heap c = flatten_comment frames heap c"
    by (rule flatten_comment_frames)
qed

text \<open>
  The store of the discussion: the comment at 0 has one reply, which has none, so the
  replies below it nest two deep.
\<close>

lemma thread_heap_replies:
  "c_replies (res_heap thread_result ! 0) = [1]"
  "c_replies (res_heap thread_result ! Suc 0) = []"
  "comment_text (res_heap thread_result ! 0) = ''Rename this''"
  "comment_text (res_heap thread_result ! Suc 0) = ''Done''"
  by (simp_all add: thread_result_def)

lemma thread_within: "chain_within 2 (res_heap thread_result) 0"
  by (simp add: numeral_2_eq_2 thread_heap_replies)

lemma thread_not_within: "\<not> chain_within 1 (res_heap thread_result) 0"
  using chain_within.simps(2) [of 0 "res_heap thread_result" 0]
  by (simp add: thread_heap_replies)

lemma thread_flatten_2:
  "flatten_comment 2 (res_heap thread_result) 0 = Inr (''Rename this'' @ nl @ ''Done'')"
  by (simp add: numeral_2_eq_2 thread_heap_replies bind_err_def)

lemma thread_flatten:
  "flatten_comment 1000 (res_heap thread_result) 0 = Inr (''Rename this'' @ nl @ ''Done'')"
  using flatten_comment_frames [OF thread_within, of 1000] thread_flatten_2 by simp

text \<open>The two-cycle: each of the two comments lies on a path back to itself.\<close>

lemma cycle_heap_replies:
  "c_replies (cycle_heap ! 0) = [1]" "c_replies (cycle_heap ! Suc 0) = [0]"
  by (simp_all add: cycle_heap_def)

lemma cycle_has_cycle: "has_cycle cycle_heap 0" "has_cycle cycle_heap (Suc 0)"
proof -
  have a: "reply_path cycle_heap 0 (Suc 0)"
    by (rule reply_step) (simp add: cycle_heap_replies)
  have b: "reply_path cycle_heap (Suc 0) 0"
    by (rule reply_step) (simp add: cycle_heap_replies)
  have "reply_path cycle_heap 0 0"
    by (rule reply_trans [OF _ b]) (simp add: cycle_heap_replies)
  then show "has_cycle cycle_heap 0" by (auto simp: has_cycle_def)
  have "reply_path cycle_heap (Suc 0) (Suc 0)"
    by (rule reply_trans [OF _ a]) (simp add: cycle_heap_replies)
  then show "has_cycle cycle_heap (Suc 0)" by (auto simp: has_cycle_def)
qed

theorem flatten_comment_returns_iff_witness:
  "chain_within 1000 (res_heap thread_result) 0 \<and>
   (\<exists>text. flatten_comment 1000 (res_heap thread_result) 0 = Inr text) \<and>
   flatten_comment 1000 (res_heap thread_result) 0 = flatten_comment 2 (res_heap thread_result) 0 \<and>
   \<not> chain_within 1 (res_heap thread_result) 0 \<and>
   flatten_comment 1 (res_heap thread_result) 0 = Inl RuntimeError \<and>
   has_cycle cycle_heap 0 \<and>
   flatten_comment 1000 cycle_heap 0 = Inl RuntimeError"
proof -
  note t1000 = flatten_comment_returns_iff [of 1000 "res_heap thread_result" 0]
  note t2 = flatten_comment_returns_iff [of 2 "res_heap thread_result" 0]
  note t1 = flatten_comment_returns_iff [of 1 "res_heap thread_result" 0]
  note cyc = flatten_comment_returns_iff [of 1000 cycle_heap 0]
  have w: "chain_within 1000 (res_heap thread_result) 0"
    using chain_within_mono [OF thread_within, of 1000] by simp
  have a: "\<exists>text. flatten_comment 1000 (res_heap thread_result) 0 = Inr text"
    by (rule iffD2 [OF t1000 [THEN conjunct1] w])
  have "2 \<le> (1000::nat)" by simp
  with t2 [THEN conjunct2, THEN conjunct2, THEN conjunct2, rule_format, OF thread_within]
  have b: "flatten_comment 1000 (res_heap thread_result) 0 =
           flatten_comment 2 (res_heap thread_result) 0" .
  have c: "flatten_comment 1 (res_heap thread_result) 0 = Inl RuntimeError"
    by (rule t1 [THEN conjunct2, THEN conjunct1, rule_format, OF thread_not_within])
  have d: "flatten_comment 1000 cycle_heap 0 = Inl RuntimeError"
    by (rule cyc [THEN conjunct2, THEN conjunct2, THEN conjunct1, rule_format,
          OF cycle_has_cycle(1)])
  show ?thesis
    by (intro conjI w a b thread_not_within c cycle_has_cycle(1) d)
qed

text \<open>
  A check of the visited comments would end the call on the two-cycle when A is reached
  the second time, at the third call. The calls go on instead: each call on A calls B, and
  each call on B calls A, for as long as a frame is left.
\<close>

lemma cycle_raises:
  "flatten_comment n cycle_heap 0 = Inl RuntimeError"
  "flatten_comment n cycle_heap (Suc 0) = Inl RuntimeError"
  using has_cycle_beyond [OF cycle_has_cycle(1), of n] has_cycle_beyond [OF cycle_has_cycle(2), of n]
  by (simp_all add: flatten_comment_beyond)

lemma cycle_calls_step:
  "flatten_calls (Suc (Suc n)) cycle_heap 0 = 0 # 1 # flatten_calls n cycle_heap 0"
  by (simp add: cycle_heap_replies cycle_raises del: flatten_comment.simps)

lemma cycle_calls: "flatten_calls (2 * k) cycle_heap 0 = concat (replicate k [0, 1])"
proof (induction k)
  case 0
  show ?case by simp
next
  case (Suc k)
  have "2 * Suc k = Suc (Suc (2 * k))" by simp
  then show ?case using Suc by (simp only: cycle_calls_step replicate.simps concat.simps) simp
qed

text \<open>
  The two-cycle with 1000 frames left: A has the reply B and B has the reply A. The call
  on A enters A and B five hundred times each, without noticing that it has been there,
  and ends with the \<^verbatim>\<open>RuntimeError\<close> of the interpreter when the frames are used up.
\<close>

theorem flatten_comment_cycle_counterexample:
  "flatten_calls 1000 cycle_heap 0 = concat (replicate 500 [0, 1]) \<and>
   flatten_comment 1000 cycle_heap 0 = Inl RuntimeError"
proof -
  have "(2::nat) * 500 = 1000" by simp
  then have "flatten_calls 1000 cycle_heap 0 = concat (replicate 500 [0, 1])"
    using cycle_calls [of 500] by (simp only:)
  then show ?thesis using cycle_raises(1) [of 1000] by (rule conjI)
qed

section \<open>The fields of the document\<close>

lemma build_document_Inr:
  assumes "build_document env request = Inr doc"
  obtains modes t where "doc = make_document env modes request t"
  using assms
  by (auto simp: build_document_def bind_err_def split: sum.splits)

lemma example_scan: "scan_reviews [] = Inr scan_init"
  by (simp add: scan_reviews_def)

lemma example_reconstruction:
  "get_all_review_comments [] [] =
     Inr \<lparr>res_entries = [], top_replies_of = [], bottom_replies_of = [], res_heap = []\<rparr>"
  by (simp add: get_all_review_comments_def example_scan bind_err_def scan_init_def
      build_entries_def link_replies_def fetch_rows_def build_comment_map_def init_heap_def
      enumerate_eq_zip)

lemma example_build:
  "build_document example_env example_request =
     Inr (make_document example_env (ANALYZED, NOT_ANALYZED) example_request [])"
  by (simp add: build_document_def index_modes_def example_env_def example_request_def
      example_reconstruction flatten_entries_def bind_err_def)

lemma two_file_build:
  "build_document example_env two_file_request =
     Inr (make_document example_env (ANALYZED, NOT_ANALYZED) two_file_request [])"
  by (simp add: build_document_def index_modes_def example_env_def example_request_def
      two_file_request_def example_reconstruction flatten_entries_def bind_err_def)

lemma make_document_bug:
  "map field_value (filter (\<lambda>f. field_name f = ''bug'') (make_document env modes request t))
     = [bugs_of request]"
  by (cases modes) (simp add: make_document_def Let_def)

text \<open>
  Claim C7. In every document that is built, the value of the field \<^verbatim>\<open>bug\<close> is the bug
  list of the request with each comma replaced by a space; the bug list "123,456" gives
  "123 456".
\<close>

theorem bug_field:
  assumes "build_document env request = Inr doc"
  shows "map field_value (filter (\<lambda>f. field_name f = ''bug'') doc) =
           [map (\<lambda>c. if c = CHR '','' then CHR '' '' else c) (bugs_closed request)]"
proof -
  obtain modes t where d: "doc = make_document env modes request t"
    using assms by (rule build_document_Inr)
  show ?thesis
    unfolding d make_document_bug bugs_of_def
    using join_split_replace [of "CHR '' ''" "CHR '',''" "bugs_closed request"] by simp
qed

theorem bug_field_witness:
  "build_document example_env example_request =
     Inr (make_document example_env (ANALYZED, NOT_ANALYZED) example_request []) \<and>
   map field_value (filter (\<lambda>f. field_name f = ''bug'')
     (make_document example_env (ANALYZED, NOT_ANALYZED) example_request [])) = [''123 456'']"
  using bug_field [OF example_build] example_build
  by (simp add: example_request_def)

lemma make_document_text:
  "map field_value (filter (\<lambda>f. field_name f = ''text'') (make_document env modes request t))
     = [join nl [summary request, description request, unicode_opt (changenum request),
                 testing_done request, bugs_of request, name_of request, t,
                 aggregate_files_of env request]]"
  by (cases modes) (simp add: make_document_def Let_def)

lemma make_document_changenum:
  "map field_value
     (filter (\<lambda>f. field_name f = ''changenum'') (make_document env modes request t))
     = (if truthy_int (changenum request) then [unicode_opt (changenum request)] else [])"
  by (cases modes) (simp add: make_document_def Let_def)

lemma make_document_file:
  "map field_value (filter (\<lambda>f. field_name f = ''file'') (make_document env modes request t))
     = [aggregate_files_of env request]"
  by (cases modes) (simp add: make_document_def Let_def)

lemma make_document_comment:
  "map field_value (filter (\<lambda>f. field_name f = ''comment'') (make_document env modes request t))
     = [t]"
  by (cases modes) (simp add: make_document_def Let_def)

lemma truthy_int_iff: "truthy_int x \<longleftrightarrow> \<not> (x = None \<or> x = Some 0)"
  by (cases x) (simp_all add: truthy_int_def)

lemma str_int_0: "str_int 0 = ''0''"
  by (simp add: str_int_def digit_def)

text \<open>The set of the example request holds one path, so its walk has one outcome.\<close>

lemma example_files:
  "aggregate_files_of example_env example_request = ''main.cc''"
  by (simp add: aggregate_files_of_def set_walk_def set_of_list_def set_add_def
      example_env_def example_request_def collect_files_def filediff_paths_def)

text \<open>
  Claim C10. In every document that is built, the field \<^verbatim>\<open>text\<close> starts with the
  summary, the description and the printed change number, each followed by a newline; the
  change number prints as "None" when it is null and as "0" when it is zero. The field
  \<^verbatim>\<open>changenum\<close> is present exactly when the change number is neither null nor zero.
\<close>

theorem text_field_changenum:
  assumes "build_document env request = Inr doc"
  shows "(\<exists>rest. map field_value (filter (\<lambda>f. field_name f = ''text'') doc) =
            [summary request @ nl @ description request @ nl @
             unicode_opt (changenum request) @ nl @ rest]) \<and>
         map field_value (filter (\<lambda>f. field_name f = ''changenum'') doc) =
           (if changenum request = None \<or> changenum request = Some 0 then []
            else [unicode_opt (changenum request)]) \<and>
         unicode_opt None = ''None'' \<and> unicode_opt (Some 0) = ''0''"
proof -
  obtain modes t where d: "doc = make_document env modes request t"
    using assms by (rule build_document_Inr)
  have "\<exists>rest. map field_value (filter (\<lambda>f. field_name f = ''text'') doc) =
            [summary request @ nl @ description request @ nl @
             unicode_opt (changenum request) @ nl @ rest]"
    unfolding d make_document_text by simp
  moreover have "map field_value (filter (\<lambda>f. field_name f = ''changenum'') doc) =
           (if changenum request = None \<or> changenum request = Some 0 then []
            else [unicode_opt (changenum request)])"
    unfolding d make_document_changenum truthy_int_iff by simp
  moreover have "unicode_opt None = ''None''" "unicode_opt (Some 0) = ''0''"
    by (simp_all add: unicode_opt_def str_int_0)
  ultimately show ?thesis by blast
qed

theorem text_field_changenum_witness:
  "build_document example_env example_request =
     Inr (make_document example_env (ANALYZED, NOT_ANALYZED) example_request []) \<and>
   map field_value (filter (\<lambda>f. field_name f = ''text'')
     (make_document example_env (ANALYZED, NOT_ANALYZED) example_request [])) =
     [''Fix crash'' @ nl @ ''Null check'' @ nl @ ''0'' @ nl @ ''unit tests'' @ nl @
      ''123 456'' @ nl @ ''bob Bob Lee'' @ nl @ '''' @ nl @ ''main.cc''] \<and>
   map field_value (filter (\<lambda>f. field_name f = ''changenum'')
     (make_document example_env (ANALYZED, NOT_ANALYZED) example_request [])) = []"
  using text_field_changenum [OF example_build] example_build
  by (simp add: make_document_text example_files)
     (simp add: example_request_def unicode_opt_def str_int_0 bugs_of_def name_of_def)

section \<open>The file field\<close>

lemma set_filediff_paths:
  "set (filediff_paths fd) = {p. p \<noteq> [] \<and> (p = source_file fd \<or> p = dest_file fd)}"
  by (auto simp: filediff_paths_def)

lemma set_collect_files:
  "set (collect_files request) =
     {p. p \<noteq> [] \<and>
         (\<exists>diffsets diffset fd. diffset_history request = Some diffsets \<and>
            diffset \<in> set diffsets \<and> fd \<in> set diffset \<and>
            (p = source_file fd \<or> p = dest_file fd))}"
  by (cases "diffset_history request") (auto simp: collect_files_def set_filediff_paths)

lemma distinct_count_list_1: "distinct xs \<Longrightarrow> x \<in> set xs \<Longrightarrow> count_list xs x = 1"
  by (induction xs) auto

text \<open>The set built from a list holds the elements of the list, each of them once.\<close>

lemma fold_set_add:
  "set (fold set_add xs s) = set xs \<union> set s"
  "distinct s \<Longrightarrow> distinct (fold set_add xs s)"
  by (induction xs arbitrary: s) (auto simp: set_add_def)

lemma set_of_list_set [simp]: "set (set_of_list xs) = set xs"
  by (simp add: set_of_list_def fold_set_add)

lemma set_of_list_distinct [simp]: "distinct (set_of_list xs)"
  by (simp add: set_of_list_def fold_set_add)

text \<open>The walk over a set reaches every element once, whatever the slots are.\<close>

lemma set_walk_set [simp]: "set (set_walk slot s) = set s"
  by (simp add: set_walk_def)

lemma set_walk_distinct [simp]: "distinct (set_walk slot s) = distinct s"
  by (simp add: set_walk_def)

text \<open>Joining strings without the separator and splitting at it gives the strings back.\<close>

lemma split_no_sep: "c \<notin> set x \<Longrightarrow> split c x = [x]"
  by (induction x) auto

lemma split_append_sep: "c \<notin> set x \<Longrightarrow> split c (x @ c # r) = x # split c r"
  by (induction x) auto

lemma split_join:
  "xs \<noteq> [] \<Longrightarrow> (\<And>x. x \<in> set xs \<Longrightarrow> c \<notin> set x) \<Longrightarrow> split c (join [c] xs) = xs"
proof (induction xs)
  case Nil
  then show ?case by simp
next
  case (Cons x xs)
  show ?case
  proof (cases xs)
    case Nil
    then show ?thesis using Cons.prems(2) [of x] by (simp add: split_no_sep)
  next
    case (Cons y ys)
    have "split c (join [c] xs) = xs" using Cons.IH Cons.prems(2) Cons by simp
    then show ?thesis using Cons Cons.prems(2) [of x] by (simp add: split_append_sep)
  qed
qed

text \<open>
  Claim C8. In every document that is built, the value of the field \<^verbatim>\<open>file\<close> is the
  newline-join of a duplicate-free list of paths, whose elements are exactly the non-empty
  source and destination paths of the file diffs of all diff sets of the request; every
  path occurs once in it, however often it occurs in the diff sets, and whatever the order
  is in which Python walks the set. When no path contains a newline, the lines of the
  field are these paths.
\<close>

theorem file_field:
  assumes "build_document env request = Inr doc"
  shows "\<exists>paths.
           map field_value (filter (\<lambda>f. field_name f = ''file'') doc) = [join nl paths] \<and>
           set paths =
             {p. p \<noteq> [] \<and>
                 (\<exists>diffsets diffset fd. diffset_history request = Some diffsets \<and>
                    diffset \<in> set diffsets \<and> fd \<in> set diffset \<and>
                    (p = source_file fd \<or> p = dest_file fd))} \<and>
           distinct paths \<and> (\<forall>p \<in> set paths. count_list paths p = 1) \<and>
           (paths \<noteq> [] \<and> (\<forall>p \<in> set paths. CHR 0x0A \<notin> set p) \<longrightarrow>
              split (CHR 0x0A) (join nl paths) = paths)"
proof -
  obtain modes t where d: "doc = make_document env modes request t"
    using assms by (rule build_document_Inr)
  let ?paths = "set_walk (set_slot env) (set_of_list (collect_files request))"
  have f: "map field_value (filter (\<lambda>f. field_name f = ''file'') doc) = [join nl ?paths]"
    unfolding d make_document_file aggregate_files_of_def ..
  have s: "set ?paths =
             {p. p \<noteq> [] \<and>
                 (\<exists>diffsets diffset fd. diffset_history request = Some diffsets \<and>
                    diffset \<in> set diffsets \<and> fd \<in> set diffset \<and>
                    (p = source_file fd \<or> p = dest_file fd))}"
    using set_collect_files [of request] by simp
  have dist: "distinct ?paths" by simp
  have c: "\<forall>p \<in> set ?paths. count_list ?paths p = 1"
    using dist by (simp add: distinct_count_list_1 del: set_walk_set set_walk_distinct)
  have l: "?paths \<noteq> [] \<and> (\<forall>p \<in> set ?paths. CHR 0x0A \<notin> set p) \<longrightarrow>
              split (CHR 0x0A) (join nl ?paths) = ?paths"
    unfolding nl_def by (intro impI split_join) blast+
  show ?thesis
    by (rule exI [of _ ?paths]) (intro conjI f s dist c l)
qed

lemma two_file_set:
  "{p. p \<noteq> [] \<and>
       (\<exists>diffsets diffset fd. diffset_history two_file_request = Some diffsets \<and>
          diffset \<in> set diffsets \<and> fd \<in> set diffset \<and>
          (p = source_file fd \<or> p = dest_file fd))} = {''main.cc'', ''util.h''}"
  unfolding set_collect_files [symmetric]
  by (auto simp: collect_files_def filediff_paths_def two_file_request_def example_request_def)

theorem file_field_witness:
  "build_document example_env example_request =
     Inr (make_document example_env (ANALYZED, NOT_ANALYZED) example_request []) \<and>
   map field_value (filter (\<lambda>f. field_name f = ''file'')
     (make_document example_env (ANALYZED, NOT_ANALYZED) example_request [])) = [''main.cc''] \<and>
   build_document example_env two_file_request =
     Inr (make_document example_env (ANALYZED, NOT_ANALYZED) two_file_request []) \<and>
   (\<exists>paths.
      map field_value (filter (\<lambda>f. field_name f = ''file'')
        (make_document example_env (ANALYZED, NOT_ANALYZED) two_file_request [])) =
        [join nl paths] \<and>
      set paths = {''main.cc'', ''util.h''} \<and> distinct paths)"
proof -
  have one: "map field_value (filter (\<lambda>f. field_name f = ''file'')
     (make_document example_env (ANALYZED, NOT_ANALYZED) example_request [])) = [''main.cc'']"
    by (simp add: make_document_file example_files)
  note ff = file_field [OF two_file_build, unfolded two_file_set]
  from ff obtain paths where
    p: "map field_value (filter (\<lambda>f. field_name f = ''file'')
        (make_document example_env (ANALYZED, NOT_ANALYZED) two_file_request [])) =
        [join nl paths]"
      "set paths = {''main.cc'', ''util.h''}" "distinct paths"
    by (elim exE conjE)
  have two: "\<exists>paths.
      map field_value (filter (\<lambda>f. field_name f = ''file'')
        (make_document example_env (ANALYZED, NOT_ANALYZED) two_file_request [])) =
        [join nl paths] \<and>
      set paths = {''main.cc'', ''util.h''} \<and> distinct paths"
    by (rule exI [of _ paths]) (intro conjI p)
  show ?thesis by (intro conjI example_build one two_file_build two)
qed

section \<open>Loops with an invariant\<close>

lemmas eval_defs =
  get_all_review_comments_def scan_reviews_def scan_review_def store_base_reply_def
  store_reply_def scan_init_def build_entries_def add_entry_def link_replies_def
  fetch_rows_def init_heap_def build_comment_map_def attach_comment_def bind_err_def
  dict_get_def dict_has_def dict_get_opt_def dict_has_opt_def is_reply_def
  comment_is_reply_def new_comment_obj_def new_entry_def set_review_def append_reply_def
  append_comment_def Let_def enumerate_eq_zip upt_rec

lemma for_each_invariant:
  assumes "for_each body xs s = Inr s'"
    and "P s"
    and "\<And>x t t'. x \<in> set xs \<Longrightarrow> P t \<Longrightarrow> body x t = Inr t' \<Longrightarrow> P t'"
  shows "P s'"
  using assms
proof (induction xs arbitrary: s)
  case Nil
  then show ?case by simp
next
  case (Cons x xs)
  from Cons.prems(1) obtain t where t: "body x s = Inr t" and r: "for_each body xs t = Inr s'"
    by (auto simp: bind_err_Inr_iff)
  have "P t" using Cons.prems(3) [of x s t] Cons.prems(2) t by simp
  then show ?case
    by (rule Cons.IH [OF r]) (rule Cons.prems(3), simp_all)
qed

lemma for_each_fold:
  assumes "for_each body xs s = Inr s'"
    and "\<And>x t t'. body x t = Inr t' \<Longrightarrow> F t' = g x (F t)"
  shows "F s' = fold g xs (F s)"
  using assms(1)
proof (induction xs arbitrary: s)
  case Nil
  then show ?case by simp
next
  case (Cons x xs)
  from Cons.prems obtain t where t: "body x s = Inr t" and r: "for_each body xs t = Inr s'"
    by (auto simp: bind_err_Inr_iff)
  show ?case using Cons.IH [OF r] assms(2) [OF t] by simp
qed

lemma for_each_total:
  assumes "P s"
    and "\<And>x t. x \<in> set xs \<Longrightarrow> P t \<Longrightarrow> \<exists>t'. body x t = Inr t' \<and> P t'"
  shows "\<exists>s'. for_each body xs s = Inr s' \<and> P s'"
  using assms
proof (induction xs arbitrary: s)
  case Nil
  then show ?case by simp
next
  case (Cons x xs)
  obtain t where t: "body x s = Inr t" "P t" using Cons.prems by fastforce
  obtain s' where "for_each body xs t = Inr s'" "P s'"
    using Cons.IH [OF t(2)] Cons.prems(2) by fastforce
  then show ?case using t by (auto simp: bind_err_def)
qed

section \<open>The first loop\<close>

lemma scan_review_public_reviews:
  "scan_review r s = Inr s' \<Longrightarrow>
     public_reviews s' = (if public r then public_reviews s @ [r] else public_reviews s)"
  by (auto simp: scan_review_def store_base_reply_def bind_err_Inr_iff Let_def
      split: if_splits option.splits)

lemma scan_review_id_map:
  "scan_review r s = Inr s' \<Longrightarrow>
     reviews_id_map s' =
       (if public r then AList.update (pk r) r (reviews_id_map s) else reviews_id_map s)"
  by (auto simp: scan_review_def store_base_reply_def bind_err_Inr_iff Let_def
      split: if_splits option.splits)

lemma scan_review_body_top:
  "scan_review r s = Inr s' \<Longrightarrow>
     body_top_replies s' =
       (if public r then store_reply (body_top_reply_to_id r) r (body_top_replies s)
        else body_top_replies s)"
  by (auto simp: scan_review_def store_base_reply_def bind_err_Inr_iff Let_def
      split: if_splits option.splits)

lemma scan_review_body_bottom:
  "scan_review r s = Inr s' \<Longrightarrow>
     body_bottom_replies s' =
       (if public r then store_reply (body_bottom_reply_to_id r) r (body_bottom_replies s)
        else body_bottom_replies s)"
  by (auto simp: scan_review_def store_base_reply_def bind_err_Inr_iff Let_def
      split: if_splits option.splits)

lemma scan_review_top_attr:
  "scan_review r s = Inr s' \<Longrightarrow> top_attr s' = AList.update (pk r) [] (top_attr s)"
  by (auto simp: scan_review_def store_base_reply_def bind_err_Inr_iff Let_def
      split: if_splits option.splits)

lemma scan_review_bottom_attr:
  "scan_review r s = Inr s' \<Longrightarrow> bottom_attr s' = AList.update (pk r) [] (bottom_attr s)"
  by (auto simp: scan_review_def store_base_reply_def bind_err_Inr_iff Let_def
      split: if_splits option.splits)

lemma scan_review_replies:
  "scan_review r s = Inr s' \<Longrightarrow>
     replies s' =
       (if public r then store_reply (base_reply_to_id r) r (replies s) else replies s)"
  by (auto simp: scan_review_def store_base_reply_def store_reply_def bind_err_Inr_iff Let_def
      dict_get_def dict_has_def split: if_splits option.splits)

text \<open>The first loop never raises: a key of \<open>replies\<close> is a key of \<open>reply_timestamps\<close>.\<close>

lemma scan_review_total:
  assumes "\<And>k. dict_has (replies s) k \<Longrightarrow> dict_has (reply_timestamps s) k"
  shows "\<exists>s'. scan_review r s = Inr s' \<and>
           (\<forall>k. dict_has (replies s') k \<longrightarrow> dict_has (reply_timestamps s') k)"
proof (cases "public r")
  case False
  then show ?thesis using assms by (simp add: scan_review_def bind_err_def Let_def)
next
  case True
  show ?thesis
  proof (cases "base_reply_to_id r")
    case None
    then show ?thesis
      using True assms by (simp add: scan_review_def store_base_reply_def bind_err_def Let_def)
  next
    case (Some p)
    show ?thesis
    proof (cases "dict_has (replies s) p")
      case False
      then show ?thesis
        using True Some assms
        by (simp add: scan_review_def store_base_reply_def bind_err_def Let_def dict_has_def
            update_conv')
    next
      case has: True
      then obtain l where l: "map_of (replies s) p = Some l" by (auto simp: dict_has_def)
      from assms [OF has] obtain t where t: "map_of (reply_timestamps s) p = Some t"
        by (auto simp: dict_has_def)
      show ?thesis
        using True Some has l t assms
        by (simp add: scan_review_def store_base_reply_def bind_err_def Let_def dict_has_def
            dict_get_def update_conv')
    qed
  qed
qed

lemma scan_reviews_total: "\<exists>s. scan_reviews rs = Inr s"
proof -
  have "\<exists>s'. for_each scan_review rs scan_init = Inr s' \<and>
          (\<forall>k. dict_has (replies s') k \<longrightarrow> dict_has (reply_timestamps s') k)"
  proof (rule for_each_total [where P = "\<lambda>s. \<forall>k. dict_has (replies s) k \<longrightarrow>
          dict_has (reply_timestamps s) k"])
    show "\<forall>k. dict_has (replies scan_init) k \<longrightarrow> dict_has (reply_timestamps scan_init) k"
      by (simp add: scan_init_def dict_has_def)
  next
    fix x and t :: scan
    assume "\<forall>k. dict_has (replies t) k \<longrightarrow> dict_has (reply_timestamps t) k"
    then show "\<exists>t'. scan_review x t = Inr t' \<and>
          (\<forall>k. dict_has (replies t') k \<longrightarrow> dict_has (reply_timestamps t') k)"
      using scan_review_total [of t x] by blast
  qed
  then show ?thesis by (auto simp: scan_reviews_def)
qed

lemma fold_append_filter:
  "fold (\<lambda>r l. if P r then l @ [r] else l) rs l0 = l0 @ filter P rs"
  by (induction rs arbitrary: l0) simp_all

lemma scan_public_reviews:
  assumes "scan_reviews rs = Inr s"
  shows "public_reviews s = filter public rs"
proof -
  have "public_reviews s =
          fold (\<lambda>r l. if public r then l @ [r] else l) rs (public_reviews scan_init)"
    using assms unfolding scan_reviews_def
    by (rule for_each_fold) (simp add: scan_review_public_reviews)
  then show ?thesis by (simp add: fold_append_filter scan_init_def)
qed

text \<open>The dictionary from keys to review objects holds the last public review of a key.\<close>

lemma fold_update_lookup:
  "map_of (fold (\<lambda>r d. if public r then AList.update (pk r) r d else d) rs d0) k =
     (case filter (\<lambda>r. public r \<and> pk r = k) rs of
        [] \<Rightarrow> map_of d0 k
      | x # xs \<Rightarrow> Some (last (x # xs)))"
  by (induction rs arbitrary: d0) (auto simp: update_conv' split: list.splits)

lemma scan_id_map:
  assumes "scan_reviews rs = Inr s"
  shows "map_of (reviews_id_map s) k =
     (case filter (\<lambda>r. public r \<and> pk r = k) rs of
        [] \<Rightarrow> None
      | x # xs \<Rightarrow> Some (last (x # xs)))"
proof -
  have "reviews_id_map s =
          fold (\<lambda>r d. if public r then AList.update (pk r) r d else d) rs
            (reviews_id_map scan_init)"
    using assms unfolding scan_reviews_def
    by (rule for_each_fold) (simp add: scan_review_id_map)
  then show ?thesis by (simp add: fold_update_lookup scan_init_def split: list.splits)
qed

lemma scan_id_map_Some:
  assumes "scan_reviews rs = Inr s" and "map_of (reviews_id_map s) k = Some r"
  shows "r \<in> set rs \<and> public r \<and> pk r = k"
proof -
  from assms obtain x xs where f: "filter (\<lambda>r. public r \<and> pk r = k) rs = x # xs"
    and r: "r = last (x # xs)"
    by (auto simp: scan_id_map split: list.splits)
  have "r \<in> set (filter (\<lambda>r. public r \<and> pk r = k) rs)"
    unfolding f r by (rule last_in_set) simp
  then show ?thesis by simp
qed

lemma scan_id_map_has:
  assumes "scan_reviews rs = Inr s"
  shows "dict_has (reviews_id_map s) k \<longleftrightarrow> (\<exists>r \<in> set rs. public r \<and> pk r = k)"
proof -
  have "filter (\<lambda>r. public r \<and> pk r = k) rs \<noteq> [] \<longleftrightarrow> (\<exists>r \<in> set rs. public r \<and> pk r = k)"
    by (auto simp: filter_empty_conv)
  then show ?thesis
    by (auto simp: dict_has_def scan_id_map [OF assms] split: list.splits)
qed

lemma filter_pk_distinct:
  "distinct (map pk rs) \<Longrightarrow> r \<in> set rs \<Longrightarrow> filter (\<lambda>x. pk x = pk r) rs = [r]"
proof (induction rs)
  case Nil
  then show ?case by simp
next
  case (Cons a rs)
  show ?case
  proof (cases "a = r")
    case True
    have "pk r \<notin> pk ` set rs" using Cons.prems(1) True by simp
    then have "\<forall>x \<in> set rs. pk x \<noteq> pk r" by (metis imageI)
    then have "filter (\<lambda>x. pk x = pk r) rs = []"
      by (simp add: filter_empty_conv)
    then show ?thesis using True by simp
  next
    case False
    then have "r \<in> set rs" using Cons.prems(2) by simp
    then have "pk a \<noteq> pk r" using Cons.prems(1) by auto
    then show ?thesis using Cons.IH \<open>r \<in> set rs\<close> Cons.prems(1) by simp
  qed
qed

lemma scan_id_map_distinct:
  assumes "scan_reviews rs = Inr s" and "distinct (map pk rs)" and "r \<in> set rs" and "public r"
  shows "map_of (reviews_id_map s) (pk r) = Some r"
proof -
  have "filter (\<lambda>x. public x \<and> pk x = pk r) rs =
          filter public (filter (\<lambda>x. pk x = pk r) rs)"
    by (simp add: conj_commute)
  also have "\<dots> = [r]" using assms by (simp add: filter_pk_distinct)
  finally show ?thesis by (simp add: scan_id_map [OF assms(1)])
qed

section \<open>The reply dictionaries\<close>

lemma store_reply_lookup:
  "map_of (store_reply ko r d) k =
     (if ko = Some k then Some ((case map_of d k of None \<Rightarrow> [] | Some l \<Rightarrow> l) @ [r])
      else map_of d k)"
  by (auto simp: store_reply_def update_conv' split: option.splits)

lemma store_reply_distinct:
  "distinct (map fst d) \<Longrightarrow> distinct (map fst (store_reply ko r d))"
  by (auto simp: store_reply_def distinct_update split: option.splits)

lemma fold_store_reply_lookup:
  "map_of (fold (\<lambda>r d. if public r then store_reply (sel r) r d else d) rs d0) k =
     (case filter (\<lambda>r. public r \<and> sel r = Some k) rs of
        [] \<Rightarrow> map_of d0 k
      | x # xs \<Rightarrow> Some ((case map_of d0 k of None \<Rightarrow> [] | Some l \<Rightarrow> l) @ x # xs))"
proof (induction rs arbitrary: d0)
  case Nil
  show ?case by simp
next
  case (Cons a rs)
  show ?case
    by (simp add: Cons.IH store_reply_lookup split: list.splits option.splits)
qed

lemma fold_store_reply_distinct:
  "distinct (map fst d0) \<Longrightarrow>
     distinct (map fst (fold (\<lambda>r d. if public r then store_reply (sel r) r d else d) rs d0))"
  by (induction rs arbitrary: d0) (simp_all add: store_reply_distinct)

lemma scan_body_top:
  assumes "scan_reviews rs = Inr s"
  shows "body_top_replies s =
           fold (\<lambda>r d. if public r then store_reply (body_top_reply_to_id r) r d else d) rs []"
proof -
  have "body_top_replies s =
          fold (\<lambda>r d. if public r then store_reply (body_top_reply_to_id r) r d else d) rs
            (body_top_replies scan_init)"
    using assms unfolding scan_reviews_def
    by (rule for_each_fold) (simp add: scan_review_body_top)
  then show ?thesis by (simp add: scan_init_def)
qed

lemma scan_body_bottom:
  assumes "scan_reviews rs = Inr s"
  shows "body_bottom_replies s =
           fold (\<lambda>r d. if public r then store_reply (body_bottom_reply_to_id r) r d else d) rs []"
proof -
  have "body_bottom_replies s =
          fold (\<lambda>r d. if public r then store_reply (body_bottom_reply_to_id r) r d else d) rs
            (body_bottom_replies scan_init)"
    using assms unfolding scan_reviews_def
    by (rule for_each_fold) (simp add: scan_review_body_bottom)
  then show ?thesis by (simp add: scan_init_def)
qed

lemma scan_replies:
  assumes "scan_reviews rs = Inr s"
  shows "replies s =
           fold (\<lambda>r d. if public r then store_reply (base_reply_to_id r) r d else d) rs []"
proof -
  have "replies s =
          fold (\<lambda>r d. if public r then store_reply (base_reply_to_id r) r d else d) rs
            (replies scan_init)"
    using assms unfolding scan_reviews_def
    by (rule for_each_fold) (simp add: scan_review_replies)
  then show ?thesis by (simp add: scan_init_def)
qed

text \<open>
  Each of the three dictionaries maps a key to the public reviews that name it, in fetch
  order, and has no entry for a key that no public review names.
\<close>

lemma multimap_lookup:
  "map_of (fold (\<lambda>r d. if public r then store_reply (sel r) r d else d) rs []) k =
     (if \<exists>r \<in> set rs. public r \<and> sel r = Some k
      then Some (filter (\<lambda>r. public r \<and> sel r = Some k) rs) else None)"
proof -
  have "filter (\<lambda>r. public r \<and> sel r = Some k) rs = [] \<longleftrightarrow>
          \<not> (\<exists>r \<in> set rs. public r \<and> sel r = Some k)"
    by (auto simp: filter_empty_conv)
  then show ?thesis
    by (auto simp: fold_store_reply_lookup split: list.splits)
qed

lemma multimap_distinct:
  "distinct (map fst (fold (\<lambda>r d. if public r then store_reply (sel r) r d else d) rs []))"
  by (rule fold_store_reply_distinct) simp

section \<open>The reply attributes\<close>

lemma fold_attr_lookup:
  "map_of (fold (\<lambda>r d. AList.update (pk r) ([] :: review list) d) rs d0) k =
     (if k \<in> pk ` set rs then Some [] else map_of d0 k)"
  by (induction rs arbitrary: d0) (auto simp: update_conv')

lemma scan_top_attr:
  assumes "scan_reviews rs = Inr s"
  shows "map_of (top_attr s) k = (if k \<in> pk ` set rs then Some [] else None)"
proof -
  have "top_attr s = fold (\<lambda>r d. AList.update (pk r) [] d) rs (top_attr scan_init)"
    using assms unfolding scan_reviews_def
    by (rule for_each_fold) (simp add: scan_review_top_attr)
  then show ?thesis by (simp add: fold_attr_lookup scan_init_def)
qed

lemma scan_bottom_attr:
  assumes "scan_reviews rs = Inr s"
  shows "map_of (bottom_attr s) k = (if k \<in> pk ` set rs then Some [] else None)"
proof -
  have "bottom_attr s = fold (\<lambda>r d. AList.update (pk r) [] d) rs (bottom_attr scan_init)"
    using assms unfolding scan_reviews_def
    by (rule for_each_fold) (simp add: scan_review_bottom_attr)
  then show ?thesis by (simp add: fold_attr_lookup scan_init_def)
qed

section \<open>Linking the replies\<close>

lemma link_replies_Nil: "link_replies id_map [] attr = Inr attr"
  by (simp add: link_replies_def)

lemma link_replies_Cons:
  "link_replies id_map ((k, l) # d) attr =
     (case map_of id_map k of
        None \<Rightarrow> Inl (KeyError (Some k))
      | Some target \<Rightarrow> link_replies id_map d (AList.update (pk target) l attr))"
  by (simp add: link_replies_def bind_err_def dict_get_def split: option.splits)

lemma link_replies_keys:
  "link_replies id_map d attr = Inr attr' \<Longrightarrow> (k, l) \<in> set d \<Longrightarrow> dict_has id_map k"
proof (induction d arbitrary: attr)
  case Nil
  then show ?case by simp
next
  case (Cons a d)
  obtain k0 l0 where a: "a = (k0, l0)" by (cases a)
  from Cons.prems(1) obtain t where t: "map_of id_map k0 = Some t"
    and r: "link_replies id_map d (AList.update (pk t) l0 attr) = Inr attr'"
    by (auto simp: a link_replies_Cons split: option.splits)
  show ?case
  proof (cases "(k, l) = a")
    case True
    then show ?thesis using t a by (simp add: dict_has_def)
  next
    case False
    then show ?thesis using Cons.IH [OF r] Cons.prems(2) by simp
  qed
qed

lemma link_replies_lookup:
  assumes "link_replies id_map d attr = Inr attr'"
    and "\<And>k t. map_of id_map k = Some t \<Longrightarrow> pk t = k"
    and "distinct (map fst d)"
  shows "map_of attr' k = (case map_of d k of Some l \<Rightarrow> Some l | None \<Rightarrow> map_of attr k)"
  using assms(1,3)
proof (induction d arbitrary: attr)
  case Nil
  then show ?case by (simp add: link_replies_Nil)
next
  case (Cons a d)
  obtain k0 l0 where a: "a = (k0, l0)" by (cases a)
  from Cons.prems(1) obtain t where t: "map_of id_map k0 = Some t"
    and r: "link_replies id_map d (AList.update (pk t) l0 attr) = Inr attr'"
    by (auto simp: a link_replies_Cons split: option.splits)
  have pk: "pk t = k0" using assms(2) t by simp
  have d: "distinct (map fst d)" and notin: "k0 \<notin> fst ` set d"
    using Cons.prems(2) by (simp_all add: a)
  have none: "map_of d k0 = None" using notin by (simp add: map_of_eq_None_iff)
  show ?case
    using Cons.IH [OF r d] none
    by (auto simp: a pk update_conv' split: option.splits)
qed

lemma link_replies_total:
  "(\<And>k l. (k, l) \<in> set d \<Longrightarrow> dict_has id_map k) \<Longrightarrow> \<exists>attr'. link_replies id_map d attr = Inr attr'"
proof (induction d arbitrary: attr)
  case Nil
  show ?case by (simp add: link_replies_Nil)
next
  case (Cons a d)
  obtain k0 l0 where a: "a = (k0, l0)" by (cases a)
  obtain t where t: "map_of id_map k0 = Some t"
    using Cons.prems [of k0 l0] by (auto simp: a dict_has_def)
  have "\<exists>attr'. link_replies id_map d (AList.update (pk t) l0 attr) = Inr attr'"
  proof (rule Cons.IH)
    fix k l assume "(k, l) \<in> set d"
    then show "dict_has id_map k" using Cons.prems [of k l] by simp
  qed
  then show ?case by (simp add: a link_replies_Cons t)
qed

section \<open>The entries\<close>

lemma fold_add_entry_fst:
  "fst (fold add_entry prs (es, rem)) = es @ map new_entry (filter (\<lambda>r. \<not> is_reply r) prs)"
  by (induction prs arbitrary: es rem) (simp_all add: add_entry_def)

lemma fold_add_entry_has:
  "dict_has (snd (fold add_entry prs (es, rem))) k \<longleftrightarrow>
     dict_has rem k \<or> (\<exists>r \<in> set prs. \<not> is_reply r \<and> pk r = k)"
  by (induction prs arbitrary: es rem) (auto simp: add_entry_def dict_has_def update_conv')

lemma fold_add_entry_lookup:
  assumes "map_of (snd (fold add_entry prs (es, rem))) k = Some j"
  shows "map_of rem k = Some j \<or>
         (length es \<le> j \<and> j < length (fst (fold add_entry prs (es, rem))) \<and>
          (\<exists>r \<in> set prs. \<not> is_reply r \<and> pk r = k \<and>
             fst (fold add_entry prs (es, rem)) ! j = new_entry r))"
  using assms
proof (induction prs arbitrary: es rem)
  case Nil
  then show ?case by simp
next
  case (Cons a prs)
  show ?case
  proof (cases "is_reply a")
    case True
    then show ?thesis using Cons.IH [of es rem] Cons.prems by (auto simp: add_entry_def)
  next
    case False
    let ?es = "es @ [new_entry a]" and ?rem = "AList.update (pk a) (length es) rem"
    have f: "fold add_entry (a # prs) (es, rem) = fold add_entry prs (?es, ?rem)"
      using False by (simp add: add_entry_def)
    from Cons.prems have "map_of (snd (fold add_entry prs (?es, ?rem))) k = Some j"
      unfolding f .
    from Cons.IH [OF this]
    consider (old) "map_of ?rem k = Some j"
      | (new) "length ?es \<le> j" "j < length (fst (fold add_entry prs (?es, ?rem)))"
          "\<exists>r \<in> set prs. \<not> is_reply r \<and> pk r = k \<and>
             fst (fold add_entry prs (?es, ?rem)) ! j = new_entry r"
      by blast
    then show ?thesis
    proof cases
      case old
      show ?thesis
      proof (cases "k = pk a")
        case True
        then have j: "j = length es" using old by (simp add: update_conv')
        have "fst (fold add_entry prs (?es, ?rem)) ! j = new_entry a"
          by (simp add: fold_add_entry_fst j nth_append)
        moreover have "j < length (fst (fold add_entry prs (?es, ?rem)))"
          by (simp add: fold_add_entry_fst j)
        ultimately show ?thesis using True False j unfolding f by auto
      next
        case False
        then show ?thesis using old by (simp add: update_conv')
      qed
    next
      case new
      then show ?thesis unfolding f by auto
    qed
  qed
qed

text \<open>
  The entries are the public top-level reviews in fetch order, and the dictionary maps
  the key of each to the position of an entry of a review with that key.
\<close>

lemma build_entries_fst:
  "fst (build_entries prs) = map new_entry (filter (\<lambda>r. \<not> is_reply r) prs)"
  by (simp add: build_entries_def fold_add_entry_fst)

lemma build_entries_has:
  "dict_has (snd (build_entries prs)) k \<longleftrightarrow> (\<exists>r \<in> set prs. \<not> is_reply r \<and> pk r = k)"
  by (simp add: build_entries_def fold_add_entry_has) (simp add: dict_has_def)

lemma build_entries_lookup:
  assumes "map_of (snd (build_entries prs)) k = Some j"
  shows "j < length (fst (build_entries prs)) \<and>
         (\<exists>r \<in> set prs. \<not> is_reply r \<and> pk r = k \<and> fst (build_entries prs) ! j = new_entry r)"
  using fold_add_entry_lookup [of prs "[]" "[]" k j] assms
  by (simp add: build_entries_def)

section \<open>The second pass\<close>

lemma set_review_length [simp]: "length (set_review i p h) = length h"
  by (simp add: set_review_def)

lemma append_reply_length [simp]: "length (append_reply r i h) = length h"
  by (simp add: append_reply_def)

lemma append_comment_length [simp]: "length (append_comment e i es) = length es"
  by (simp add: append_comment_def)

lemma nth_list_update_keep:
  "f (g (xs ! i)) = f (xs ! i) \<Longrightarrow> f (xs[i := g (xs ! i)] ! a) = f (xs ! a)"
  by (cases "i < length xs") (auto simp: nth_list_update list_update_beyond)

lemma nth_list_update_change:
  "f (xs[i := g (xs ! i)] ! a) = (if a = i \<and> i < length xs then f (g (xs ! a)) else f (xs ! a))"
  by (cases "i < length xs") (auto simp: nth_list_update list_update_beyond)

lemma set_review_nth:
  "c_replies (set_review i p h ! a) = c_replies (h ! a)"
  "reply_to_id (set_review i p h ! a) = reply_to_id (h ! a)"
  "comment_pk (set_review i p h ! a) = comment_pk (h ! a)"
  "comment_text (set_review i p h ! a) = comment_text (h ! a)"
  unfolding set_review_def by (rule nth_list_update_keep, simp)+

lemma append_reply_nth:
  "c_replies (append_reply r i h ! a) =
     (if a = r \<and> r < length h then c_replies (h ! a) @ [i] else c_replies (h ! a))"
  "reply_to_id (append_reply r i h ! a) = reply_to_id (h ! a)"
  "comment_pk (append_reply r i h ! a) = comment_pk (h ! a)"
  "comment_text (append_reply r i h ! a) = comment_text (h ! a)"
  "c_review (append_reply r i h ! a) = c_review (h ! a)"
  unfolding append_reply_def by (simp_all add: nth_list_update_change)

lemma append_comment_nth:
  "diff_comments (append_comment e i es ! j) =
     (if j = e \<and> e < length es then diff_comments (es ! j) @ [i] else diff_comments (es ! j))"
  "entry_review (append_comment e i es ! j) = entry_review (es ! j)"
  "entry_timestamp (append_comment e i es ! j) = entry_timestamp (es ! j)"
  unfolding append_comment_def by (simp_all add: nth_list_update_change)

text \<open>The body of the second pass, by the action of the row.\<close>

lemma attach_comment_eq:
  assumes "reply_to_id (heap ! i) = reply_to_id (row_comment obj)"
  shows "attach_comment id_map rem cmap (i, obj) (heap, es) =
           (case row_action id_map rem cmap obj of
              Raise err \<Rightarrow> Inl err
            | Reply_to a \<Rightarrow> Inr (row_heap id_map rem cmap (i, obj) heap,
                                   row_entries id_map rem cmap (i, obj) es)
            | To_entry e \<Rightarrow> Inr (row_heap id_map rem cmap (i, obj) heap,
                                   row_entries id_map rem cmap (i, obj) es)
            | Drop \<Rightarrow> Inr (row_heap id_map rem cmap (i, obj) heap,
                             row_entries id_map rem cmap (i, obj) es))"
proof (cases "map_of id_map (review_id obj)")
  case None
  then show ?thesis
    by (simp add: attach_comment_def row_action_def dict_has_def)
next
  case (Some parent)
  have r: "reply_to_id (set_review i (pk parent) heap ! i) = reply_to_id (row_comment obj)"
    using assms by (simp add: set_review_nth)
  show ?thesis
  proof (cases "is_reply parent")
    case True
    show ?thesis
    proof (cases "reply_to_id (row_comment obj)")
      case None
      then show ?thesis
        using Some True r
        by (simp add: attach_comment_def row_action_def row_heap_def row_entries_def Let_def
            bind_err_def dict_get_def dict_has_def comment_is_reply_def)
    next
      case (Some t)
      then show ?thesis
        using \<open>map_of id_map (review_id obj) = Some parent\<close> True r
        by (simp add: attach_comment_def row_action_def row_heap_def row_entries_def Let_def
            bind_err_def dict_get_def dict_has_def dict_get_opt_def comment_is_reply_def
            split: option.splits)
    qed
  next
    case False
    then show ?thesis
      using Some
      by (simp add: attach_comment_def row_action_def row_heap_def row_entries_def Let_def
          bind_err_def dict_get_def dict_has_def split: option.splits)
  qed
qed

lemma row_heap_length [simp]: "length (row_heap id_map rem cmap row h) = length h"
  by (cases row) (simp add: row_heap_def Let_def split: option.splits row_action.splits)

lemma row_entries_length [simp]: "length (row_entries id_map rem cmap row es) = length es"
  by (cases row) (simp add: row_entries_def split: row_action.splits)

lemma row_heap_static:
  "reply_to_id (row_heap id_map rem cmap row h ! a) = reply_to_id (h ! a)"
  "comment_pk (row_heap id_map rem cmap row h ! a) = comment_pk (h ! a)"
  "comment_text (row_heap id_map rem cmap row h ! a) = comment_text (h ! a)"
  by (cases row; simp add: row_heap_def Let_def append_reply_nth set_review_nth
      split: option.splits row_action.splits)+

lemma row_heap_replies:
  "c_replies (row_heap id_map rem cmap (i, obj) h ! a) =
     c_replies (h ! a) @
       (if row_action id_map rem cmap obj = Reply_to a \<and> a < length h then [i] else [])"
  by (simp add: row_heap_def Let_def append_reply_nth set_review_nth
      split: option.splits row_action.splits)

lemma row_entries_review:
  "entry_review (row_entries id_map rem cmap row es ! j) = entry_review (es ! j)"
  by (cases row) (simp add: row_entries_def append_comment_nth split: row_action.splits)

lemma row_entries_comments:
  "diff_comments (row_entries id_map rem cmap (i, obj) es ! j) =
     diff_comments (es ! j) @
       (if row_action id_map rem cmap obj = To_entry j \<and> j < length es then [i] else [])"
  by (simp add: row_entries_def append_comment_nth split: row_action.splits)

lemma fold_row_heap_length [simp]:
  "length (fold (row_heap id_map rem cmap) rows h) = length h"
  by (induction rows arbitrary: h) simp_all

lemma fold_row_entries_length [simp]:
  "length (fold (row_entries id_map rem cmap) rows es) = length es"
  by (induction rows arbitrary: es) simp_all

lemma fold_row_heap_static:
  "reply_to_id (fold (row_heap id_map rem cmap) rows h ! a) = reply_to_id (h ! a)"
  "comment_pk (fold (row_heap id_map rem cmap) rows h ! a) = comment_pk (h ! a)"
  "comment_text (fold (row_heap id_map rem cmap) rows h ! a) = comment_text (h ! a)"
  by (induction rows arbitrary: h; simp add: row_heap_static)+

lemma fold_row_heap_replies:
  "c_replies (fold (row_heap id_map rem cmap) rows h ! a) =
     c_replies (h ! a) @
       map fst (filter (\<lambda>row. row_action id_map rem cmap (snd row) = Reply_to a \<and>
                                a < length h) rows)"
proof (induction rows arbitrary: h)
  case Nil
  show ?case by simp
next
  case (Cons row rows)
  obtain i obj where row: "row = (i, obj)" by (cases row)
  show ?case by (simp add: Cons.IH row row_heap_replies)
qed

lemma fold_row_entries_review:
  "entry_review (fold (row_entries id_map rem cmap) rows es ! j) = entry_review (es ! j)"
  by (induction rows arbitrary: es) (simp_all add: row_entries_review)

lemma fold_row_entries_comments:
  "diff_comments (fold (row_entries id_map rem cmap) rows es ! j) =
     diff_comments (es ! j) @
       map fst (filter (\<lambda>row. row_action id_map rem cmap (snd row) = To_entry j \<and>
                                j < length es) rows)"
proof (induction rows arbitrary: es)
  case Nil
  show ?case by simp
next
  case (Cons row rows)
  obtain i obj where row: "row = (i, obj)" by (cases row)
  show ?case by (simp add: Cons.IH row row_entries_comments)
qed

lemma attach_comment_ok:
  assumes "reply_to_id (h ! i) = reply_to_id (row_comment obj)"
    and "\<not> is_raise (row_action id_map rem cmap obj)"
  shows "attach_comment id_map rem cmap (i, obj) (h, es) =
      Inr (row_heap id_map rem cmap (i, obj) h, row_entries id_map rem cmap (i, obj) es)"
  using assms(2)
  by (cases "row_action id_map rem cmap obj") (simp_all add: attach_comment_eq [OF assms(1)])

lemma attach_comment_raise:
  assumes "reply_to_id (h ! i) = reply_to_id (row_comment obj)"
    and "is_raise (row_action id_map rem cmap obj)"
  shows "\<exists>err. attach_comment id_map rem cmap (i, obj) (h, es) = Inl err"
  using assms(2)
  by (cases "row_action id_map rem cmap obj") (simp_all add: attach_comment_eq [OF assms(1)])

text \<open>
  The loop of the second pass returns exactly when no row raises, and then it has applied
  the rows in order.
\<close>

lemma attach_loop_ok:
  assumes "\<And>i obj. (i, obj) \<in> set rows \<Longrightarrow> reply_to_id (h ! i) = reply_to_id (row_comment obj)"
    and "\<And>row. row \<in> set rows \<Longrightarrow> \<not> is_raise (row_action id_map rem cmap (snd row))"
  shows "for_each (attach_comment id_map rem cmap) rows (h, es) =
           Inr (fold (row_heap id_map rem cmap) rows h, fold (row_entries id_map rem cmap) rows es)"
  using assms
proof (induction rows arbitrary: h es)
  case Nil
  show ?case by simp
next
  case (Cons row rows)
  obtain i obj where row: "row = (i, obj)" by (cases row)
  have r: "reply_to_id (h ! i) = reply_to_id (row_comment obj)"
    using Cons.prems(1) [of i obj] by (simp add: row)
  have nr: "\<not> is_raise (row_action id_map rem cmap obj)"
    using Cons.prems(2) [of row] by (simp add: row)
  have step: "attach_comment id_map rem cmap (i, obj) (h, es) =
      Inr (row_heap id_map rem cmap (i, obj) h, row_entries id_map rem cmap (i, obj) es)"
    using r nr by (rule attach_comment_ok)
  have "for_each (attach_comment id_map rem cmap) rows
          (row_heap id_map rem cmap (i, obj) h, row_entries id_map rem cmap (i, obj) es) =
        Inr (fold (row_heap id_map rem cmap) rows (row_heap id_map rem cmap (i, obj) h),
             fold (row_entries id_map rem cmap) rows (row_entries id_map rem cmap (i, obj) es))"
  proof (rule Cons.IH)
    fix j o' assume "(j, o') \<in> set rows"
    then show "reply_to_id (row_heap id_map rem cmap (i, obj) h ! j) = reply_to_id (row_comment o')"
      using Cons.prems(1) [of j o'] by (simp add: row_heap_static)
  next
    fix row' assume "row' \<in> set rows"
    then show "\<not> is_raise (row_action id_map rem cmap (snd row'))"
      using Cons.prems(2) [of row'] by simp
  qed
  then show ?case by (simp add: row step bind_err_def)
qed

lemma attach_loop_raise:
  assumes "\<And>i obj. (i, obj) \<in> set rows \<Longrightarrow> reply_to_id (h ! i) = reply_to_id (row_comment obj)"
    and "row \<in> set rows" and "is_raise (row_action id_map rem cmap (snd row))"
  shows "\<exists>err. for_each (attach_comment id_map rem cmap) rows (h, es) = Inl err"
  using assms
proof (induction rows arbitrary: h es)
  case Nil
  then show ?case by simp
next
  case (Cons row0 rows)
  obtain i obj where row0: "row0 = (i, obj)" by (cases row0)
  have r: "reply_to_id (h ! i) = reply_to_id (row_comment obj)"
    using Cons.prems(1) [of i obj] by (simp add: row0)
  show ?case
  proof (cases "is_raise (row_action id_map rem cmap obj)")
    case True
    from attach_comment_raise [OF r True, of es] show ?thesis
      by (auto simp: row0 bind_err_def)
  next
    case False
    then have step: "attach_comment id_map rem cmap (i, obj) (h, es) =
      Inr (row_heap id_map rem cmap (i, obj) h, row_entries id_map rem cmap (i, obj) es)"
      by (rule attach_comment_ok [OF r])
    have in_rows: "row \<in> set rows" using Cons.prems(2,3) False by (auto simp: row0)
    have "\<exists>err. for_each (attach_comment id_map rem cmap) rows
          (row_heap id_map rem cmap (i, obj) h, row_entries id_map rem cmap (i, obj) es) = Inl err"
    proof (rule Cons.IH [OF _ in_rows Cons.prems(3)])
      fix j o' assume "(j, o') \<in> set rows"
      then show "reply_to_id (row_heap id_map rem cmap (i, obj) h ! j) =
                   reply_to_id (row_comment o')"
        using Cons.prems(1) [of j o'] by (simp add: row_heap_static)
    qed
    then show ?thesis by (simp add: row0 step bind_err_def)
  qed
qed

section \<open>The result of reconstruction\<close>

lemma id_map_of_scan: "scan_reviews rs = Inr s \<Longrightarrow> id_map_of rs = reviews_id_map s"
  by (simp add: id_map_of_def)

lemma fetch_rows_fetched:
  assumes "scan_reviews rs = Inr s"
  shows "fetch_rows through (reviews_id_map s) = fetched through rs"
  by (simp add: fetch_rows_def fetched_def scan_id_map_has [OF assms])

lemma fetched_owner:
  "obj \<in> set (fetched through rs) \<Longrightarrow> \<exists>r \<in> set rs. public r \<and> pk r = review_id obj"
  by (auto simp: fetched_def)

lemma init_heap_nth:
  "i < length objs \<Longrightarrow> init_heap objs ! i = new_comment_obj (row_comment (objs ! i))"
  by (simp add: init_heap_def)

lemma init_heap_length [simp]: "length (init_heap objs) = length objs"
  by (simp add: init_heap_def)

lemma new_comment_obj_sel [simp]:
  "comment_pk (new_comment_obj c) = comment_pk c"
  "comment_text (new_comment_obj c) = comment_text c"
  "reply_to_id (new_comment_obj c) = reply_to_id c"
  "c_replies (new_comment_obj c) = []"
  "c_review (new_comment_obj c) = None"
  by (simp_all add: new_comment_obj_def)

lemma init_heap_rows:
  assumes "(i, obj) \<in> set (enumerate 0 objs)"
  shows "reply_to_id (init_heap objs ! i) = reply_to_id (row_comment obj)"
  using assms by (auto simp: in_set_enumerate_eq init_heap_nth)

text \<open>Reconstruction, once the first loop has run.\<close>

lemma garc_unfold:
  assumes "scan_reviews rs = Inr s"
  shows "get_all_review_comments through rs =
     (case link_replies (reviews_id_map s) (body_top_replies s) (top_attr s) of
        Inl err \<Rightarrow> Inl err
      | Inr tops \<Rightarrow>
          (case link_replies (reviews_id_map s) (body_bottom_replies s) (bottom_attr s) of
             Inl err \<Rightarrow> Inl err
           | Inr bottoms \<Rightarrow>
               (case for_each (attach_comment (id_map_of rs) (entry_map_of rs)
                                 (comment_map_of through rs))
                       (enumerate 0 (fetched through rs))
                       (init_heap (fetched through rs), fst (build_entries (filter public rs))) of
                  Inl err \<Rightarrow> Inl err
                | Inr st \<Rightarrow>
                    Inr \<lparr>res_entries = snd st, top_replies_of = tops,
                         bottom_replies_of = bottoms, res_heap = fst st\<rparr>)))"
  by (simp add: get_all_review_comments_def assms bind_err_def Let_def
      fetch_rows_fetched [OF assms] id_map_of_scan [OF assms] entry_map_of_def
      comment_map_of_def scan_public_reviews [OF assms]
      split: sum.splits prod.splits)

lemma garc_Inr_parts:
  assumes "get_all_review_comments through rs = Inr res"
  obtains s where "scan_reviews rs = Inr s"
    and "link_replies (reviews_id_map s) (body_top_replies s) (top_attr s) =
           Inr (top_replies_of res)"
    and "link_replies (reviews_id_map s) (body_bottom_replies s) (bottom_attr s) =
           Inr (bottom_replies_of res)"
    and "for_each (attach_comment (id_map_of rs) (entry_map_of rs) (comment_map_of through rs))
           (enumerate 0 (fetched through rs))
           (init_heap (fetched through rs), fst (build_entries (filter public rs))) =
         Inr (res_heap res, res_entries res)"
proof -
  obtain s where s: "scan_reviews rs = Inr s" using scan_reviews_total by blast
  from assms show ?thesis
    by (auto simp: garc_unfold [OF s] split: sum.splits intro: that [OF s])
qed

text \<open>If reconstruction returns, no fetched row raises, and the rows were applied in order.\<close>

lemma garc_no_raise:
  assumes "get_all_review_comments through rs = Inr res"
    and "obj \<in> set (fetched through rs)"
  shows "\<not> is_raise (action_of through rs obj)"
proof
  assume raise: "is_raise (action_of through rs obj)"
  from assms(2) obtain i where i: "i < length (fetched through rs)"
    and obj: "obj = fetched through rs ! i"
    by (auto simp: in_set_conv_nth)
  have row: "(i, obj) \<in> set (enumerate 0 (fetched through rs))"
    using i obj by (simp add: in_set_enumerate_eq)
  have "\<exists>err. for_each (attach_comment (id_map_of rs) (entry_map_of rs) (comment_map_of through rs))
           (enumerate 0 (fetched through rs))
           (init_heap (fetched through rs), fst (build_entries (filter public rs))) = Inl err"
    by (rule attach_loop_raise [OF init_heap_rows row])
       (use raise in \<open>simp_all add: action_of_def\<close>)
  then show False using assms(1) by (elim garc_Inr_parts) auto
qed

lemma garc_heap:
  assumes "get_all_review_comments through rs = Inr res"
  shows "res_heap res =
           fold (row_heap (id_map_of rs) (entry_map_of rs) (comment_map_of through rs))
             (enumerate 0 (fetched through rs)) (init_heap (fetched through rs))"
    and "res_entries res =
           fold (row_entries (id_map_of rs) (entry_map_of rs) (comment_map_of through rs))
             (enumerate 0 (fetched through rs)) (fst (build_entries (filter public rs)))"
proof -
  have ok: "for_each (attach_comment (id_map_of rs) (entry_map_of rs) (comment_map_of through rs))
           (enumerate 0 (fetched through rs))
           (init_heap (fetched through rs), fst (build_entries (filter public rs))) =
         Inr (fold (row_heap (id_map_of rs) (entry_map_of rs) (comment_map_of through rs))
                (enumerate 0 (fetched through rs)) (init_heap (fetched through rs)),
              fold (row_entries (id_map_of rs) (entry_map_of rs) (comment_map_of through rs))
                (enumerate 0 (fetched through rs)) (fst (build_entries (filter public rs))))"
  proof (rule attach_loop_ok [OF init_heap_rows])
    fix row assume "row \<in> set (enumerate 0 (fetched through rs))"
    then have "snd row \<in> set (fetched through rs)"
      by (metis in_set_enumerate_eq nth_mem diff_zero add_0_right)
    from garc_no_raise [OF assms this]
    show "\<not> is_raise (row_action (id_map_of rs) (entry_map_of rs) (comment_map_of through rs)
                 (snd row))"
      by (simp add: action_of_def)
  qed simp
  from assms ok show "res_heap res =
           fold (row_heap (id_map_of rs) (entry_map_of rs) (comment_map_of through rs))
             (enumerate 0 (fetched through rs)) (init_heap (fetched through rs))"
    by (elim garc_Inr_parts) simp
  from assms ok show "res_entries res =
           fold (row_entries (id_map_of rs) (entry_map_of rs) (comment_map_of through rs))
             (enumerate 0 (fetched through rs)) (fst (build_entries (filter public rs)))"
    by (elim garc_Inr_parts) simp
qed

lemma garc_heap_length:
  "get_all_review_comments through rs = Inr res \<Longrightarrow>
     length (res_heap res) = length (fetched through rs)"
  by (simp add: garc_heap)

lemma garc_entries_length:
  "get_all_review_comments through rs = Inr res \<Longrightarrow>
     length (res_entries res) = length (filter (\<lambda>r. public r \<and> \<not> is_reply r) rs)"
  by (simp add: garc_heap build_entries_fst)

text \<open>The reply list of an object holds the rows that reply to it, in fetch order.\<close>

lemma garc_replies:
  assumes "get_all_review_comments through rs = Inr res"
    and "a < length (fetched through rs)"
  shows "c_replies (res_heap res ! a) =
           map fst (filter (\<lambda>row. action_of through rs (snd row) = Reply_to a)
                      (enumerate 0 (fetched through rs)))"
  using assms(2)
  by (simp add: garc_heap(1) [OF assms(1)] fold_row_heap_replies init_heap_nth action_of_def)

lemma garc_static:
  assumes "get_all_review_comments through rs = Inr res"
    and "a < length (fetched through rs)"
  shows "comment_text (res_heap res ! a) = comment_text (row_comment (fetched through rs ! a))"
    and "comment_pk (res_heap res ! a) = comment_pk (row_comment (fetched through rs ! a))"
    and "reply_to_id (res_heap res ! a) = reply_to_id (row_comment (fetched through rs ! a))"
  using assms(2)
  by (simp_all add: garc_heap(1) [OF assms(1)] fold_row_heap_static init_heap_nth)

text \<open>
  The entries are the public top-level reviews in fetch order; the comment list of an
  entry holds the rows that go to it, in fetch order.
\<close>

lemma garc_entry_reviews:
  assumes "get_all_review_comments through rs = Inr res"
  shows "map entry_review (res_entries res) = filter (\<lambda>r. public r \<and> \<not> is_reply r) rs"
proof (rule nth_equalityI)
  show "length (map entry_review (res_entries res)) =
          length (filter (\<lambda>r. public r \<and> \<not> is_reply r) rs)"
    by (simp add: garc_entries_length [OF assms])
next
  fix j assume "j < length (map entry_review (res_entries res))"
  then have j: "j < length (filter (\<lambda>r. \<not> is_reply r) (filter public rs))"
    by (simp add: garc_entries_length [OF assms] conj_commute)
  have "entry_review (res_entries res ! j) =
          entry_review (map new_entry (filter (\<lambda>r. \<not> is_reply r) (filter public rs)) ! j)"
    by (simp add: garc_heap(2) [OF assms] fold_row_entries_review build_entries_fst)
  also have "\<dots> = filter (\<lambda>r. \<not> is_reply r) (filter public rs) ! j"
    using j by (simp add: new_entry_def)
  finally show "map entry_review (res_entries res) ! j =
                  filter (\<lambda>r. public r \<and> \<not> is_reply r) rs ! j"
    using j by (simp add: garc_entries_length [OF assms] conj_commute)
qed

lemma garc_diff_comments:
  assumes "get_all_review_comments through rs = Inr res"
    and "j < length (res_entries res)"
  shows "diff_comments (res_entries res ! j) =
           map fst (filter (\<lambda>row. action_of through rs (snd row) = To_entry j)
                      (enumerate 0 (fetched through rs)))"
proof -
  have j: "j < length (filter (\<lambda>r. \<not> is_reply r) (filter public rs))"
    using assms(2) by (simp add: garc_entries_length [OF assms(1)] conj_commute)
  then show ?thesis
    by (simp add: garc_heap(2) [OF assms(1)] fold_row_entries_comments build_entries_fst
        new_entry_def action_of_def)
qed

text \<open>The reply lists of a review are the public reviews that name it, in fetch order.\<close>

lemma id_map_pk: "scan_reviews rs = Inr s \<Longrightarrow> map_of (reviews_id_map s) k = Some t \<Longrightarrow> pk t = k"
  using scan_id_map_Some by blast

lemma link_result_lookup:
  assumes s: "scan_reviews rs = Inr s"
    and link: "link_replies (reviews_id_map s)
                 (fold (\<lambda>r d. if public r then store_reply (sel r) r d else d) rs []) attr =
               Inr attr'"
    and attr: "\<And>k. map_of attr k = (if k \<in> pk ` set rs then Some [] else None)"
  shows "map_of attr' p =
           (if p \<in> pk ` set rs then Some (filter (\<lambda>r. public r \<and> sel r = Some p) rs)
            else None)"
proof -
  let ?d = "fold (\<lambda>r d. if public r then store_reply (sel r) r d else d) rs []"
  have look: "map_of attr' p = (case map_of ?d p of Some l \<Rightarrow> Some l | None \<Rightarrow> map_of attr p)"
    using link id_map_pk [OF s] multimap_distinct by (rule link_replies_lookup)
  show ?thesis
  proof (cases "\<exists>r \<in> set rs. public r \<and> sel r = Some p")
    case True
    then have d: "map_of ?d p = Some (filter (\<lambda>r. public r \<and> sel r = Some p) rs)"
      by (simp add: multimap_lookup)
    then have "(p, filter (\<lambda>r. public r \<and> sel r = Some p) rs) \<in> set ?d"
      by (rule map_of_SomeD)
    from link_replies_keys [OF link this] have "dict_has (reviews_id_map s) p" .
    then have "p \<in> pk ` set rs" by (auto simp: scan_id_map_has [OF s])
    then show ?thesis using look d by simp
  next
    case False
    then have d: "map_of ?d p = None" by (simp add: multimap_lookup)
    have "filter (\<lambda>r. public r \<and> sel r = Some p) rs = []"
      using False by (auto simp: filter_empty_conv)
    then show ?thesis using look d attr [of p] by simp
  qed
qed

lemma garc_top_replies:
  assumes "get_all_review_comments through rs = Inr res"
  shows "map_of (top_replies_of res) p =
           (if p \<in> pk ` set rs
            then Some (filter (\<lambda>r. public r \<and> body_top_reply_to_id r = Some p) rs)
            else None)"
proof -
  from assms obtain s where s: "scan_reviews rs = Inr s"
    and l: "link_replies (reviews_id_map s) (body_top_replies s) (top_attr s) =
           Inr (top_replies_of res)"
    by (rule garc_Inr_parts)
  show ?thesis
    by (rule link_result_lookup [OF s l [unfolded scan_body_top [OF s]]])
       (rule scan_top_attr [OF s])
qed

lemma garc_bottom_replies:
  assumes "get_all_review_comments through rs = Inr res"
  shows "map_of (bottom_replies_of res) p =
           (if p \<in> pk ` set rs
            then Some (filter (\<lambda>r. public r \<and> body_bottom_reply_to_id r = Some p) rs)
            else None)"
proof -
  from assms obtain s where s: "scan_reviews rs = Inr s"
    and l: "link_replies (reviews_id_map s) (body_bottom_replies s) (bottom_attr s) =
           Inr (bottom_replies_of res)"
    by (rule garc_Inr_parts)
  show ?thesis
    by (rule link_result_lookup [OF s l [unfolded scan_body_bottom [OF s]]])
       (rule scan_bottom_attr [OF s])
qed

text \<open>Where an address occurs in the result, its row has the action that put it there.\<close>

lemma enumerate_filter_mem:
  "a \<in> set (map fst (filter P (enumerate 0 xs))) \<longleftrightarrow> a < length xs \<and> P (a, xs ! a)"
  by (force simp: in_set_enumerate_eq)

lemma garc_mem_diff_comments:
  assumes "get_all_review_comments through rs = Inr res"
    and "j < length (res_entries res)"
  shows "a \<in> set (diff_comments (res_entries res ! j)) \<longleftrightarrow>
           a < length (fetched through rs) \<and>
           action_of through rs (fetched through rs ! a) = To_entry j"
  by (simp add: garc_diff_comments [OF assms] enumerate_filter_mem del: set_map)

lemma garc_mem_replies:
  assumes "get_all_review_comments through rs = Inr res"
    and "b < length (fetched through rs)"
  shows "a \<in> set (c_replies (res_heap res ! b)) \<longleftrightarrow>
           a < length (fetched through rs) \<and>
           action_of through rs (fetched through rs ! a) = Reply_to b"
  by (simp add: garc_replies [OF assms] enumerate_filter_mem del: set_map)

lemma sorted_enumerate_filter:
  "sorted_wrt (<) (map fst (filter P (enumerate 0 xs)))"
proof -
  have "sorted_wrt (<) (map fst (enumerate 0 xs))" by simp
  then have "sorted_wrt (\<lambda>x y. fst x < fst y) (enumerate 0 xs)"
    by (simp only: sorted_wrt_map)
  then have "sorted_wrt (\<lambda>x y. fst x < fst y) (filter P (enumerate 0 xs))"
    by (rule sorted_wrt_filter)
  then show ?thesis by (simp only: sorted_wrt_map)
qed

section \<open>The dictionaries in terms of the input\<close>

lemma fold_comment_map_lookup:
  assumes "map_of (fold (\<lambda>(i, obj) m. AList.update (comment_pk (row_comment obj)) i m)
                     (enumerate n objs) m0) t = Some a"
  shows "map_of m0 t = Some a \<or>
         (n \<le> a \<and> a < n + length objs \<and> comment_pk (row_comment (objs ! (a - n))) = t)"
  using assms
proof (induction objs arbitrary: n m0)
  case Nil
  then show ?case by simp
next
  case (Cons obj objs)
  from Cons.prems have "map_of (fold (\<lambda>(i, obj) m. AList.update (comment_pk (row_comment obj)) i m)
                     (enumerate (Suc n) objs)
                     (AList.update (comment_pk (row_comment obj)) n m0)) t = Some a"
    by simp
  from Cons.IH [OF this]
  consider "map_of (AList.update (comment_pk (row_comment obj)) n m0) t = Some a"
    | "Suc n \<le> a" "a < Suc n + length objs"
      "comment_pk (row_comment (objs ! (a - Suc n))) = t"
    by blast
  then show ?case
  proof cases
    case 1
    then show ?thesis by (auto simp: update_conv' split: if_splits)
  next
    case 2
    then have "(obj # objs) ! (a - n) = objs ! (a - Suc n)"
      by (simp add: nth_Cons split: nat.splits) (metis Suc_diff_Suc Suc_le_lessD nat.inject)
    then show ?thesis using 2 by auto
  qed
qed

lemma fold_comment_map_has:
  "dict_has (fold (\<lambda>(i, obj) m. AList.update (comment_pk (row_comment obj)) i m)
               (enumerate n objs) m0) t \<longleftrightarrow>
     dict_has m0 t \<or> t \<in> (\<lambda>obj. comment_pk (row_comment obj)) ` set objs"
  by (induction objs arbitrary: n m0) (auto simp: dict_has_def update_conv')

text \<open>
  The dictionary of comments maps the key of every fetched comment to the address of a
  fetched row with that comment key, and has no other keys.
\<close>

lemma comment_map_lookup:
  assumes "map_of (comment_map_of through rs) t = Some a"
  shows "a < length (fetched through rs) \<and>
         comment_pk (row_comment (fetched through rs ! a)) = t"
  using fold_comment_map_lookup [of 0 "fetched through rs" "[]" t a] assms
  by (simp add: comment_map_of_def build_comment_map_def)

lemma comment_map_has:
  "dict_has (comment_map_of through rs) t \<longleftrightarrow>
     t \<in> (\<lambda>obj. comment_pk (row_comment obj)) ` set (fetched through rs)"
  by (simp add: comment_map_of_def build_comment_map_def fold_comment_map_has)
     (simp add: dict_has_def)

lemma pk_inj:
  "distinct (map pk rs) \<Longrightarrow> r \<in> set rs \<Longrightarrow> r' \<in> set rs \<Longrightarrow> pk r = pk r' \<Longrightarrow> r = r'"
  by (meson distinct_map inj_onD)

lemma id_map_of_lookup:
  assumes "distinct (map pk rs)" and "r \<in> set rs" and "public r"
  shows "map_of (id_map_of rs) (pk r) = Some r"
proof -
  obtain s where s: "scan_reviews rs = Inr s" using scan_reviews_total by blast
  show ?thesis
    using scan_id_map_distinct [OF s assms] by (simp add: id_map_of_scan [OF s])
qed

lemma entry_map_has:
  "dict_has (entry_map_of rs) k \<longleftrightarrow> (\<exists>b \<in> set rs. public b \<and> \<not> is_reply b \<and> pk b = k)"
  by (auto simp: entry_map_of_def build_entries_has)

text \<open>The action on a row of a reply-review, and on a row of a public top-level review.\<close>

lemma action_of_reply_review:
  assumes "distinct (map pk rs)" and "r \<in> set rs" and "public r" and "is_reply r"
    and "pk r = review_id obj"
  shows "action_of through rs obj =
     (if \<not> (\<exists>b \<in> set rs. public b \<and> \<not> is_reply b \<and> base_reply_to_id r = Some (pk b))
      then Raise AssertionError
      else
        (case reply_to_id (row_comment obj) of
           None \<Rightarrow> Drop
         | Some t \<Rightarrow>
             (case map_of (comment_map_of through rs) t of
                None \<Rightarrow> Raise (KeyError (Some t))
              | Some a \<Rightarrow> Reply_to a)))"
proof -
  have look: "map_of (id_map_of rs) (review_id obj) = Some r"
    using id_map_of_lookup [OF assms(1-3)] assms(5) by simp
  have no_entry: "\<not> dict_has (entry_map_of rs) (review_id obj)"
  proof
    assume "dict_has (entry_map_of rs) (review_id obj)"
    then obtain b where b: "b \<in> set rs" "\<not> is_reply b" "pk b = pk r"
      using assms(5) by (auto simp: entry_map_has)
    from pk_inj [OF assms(1) b(1) assms(2) b(3)] have "b = r" .
    then show False using b(2) assms(4) by simp
  qed
  have base: "dict_has_opt (entry_map_of rs) (base_reply_to_id r) \<longleftrightarrow>
      (\<exists>b \<in> set rs. public b \<and> \<not> is_reply b \<and> base_reply_to_id r = Some (pk b))"
    by (cases "base_reply_to_id r") (auto simp: dict_has_opt_def entry_map_has)
  show ?thesis
    using look no_entry base assms(4)
    by (simp add: action_of_def row_action_def)
qed

lemma action_of_top_review:
  assumes "distinct (map pk rs)" and "r \<in> set rs" and "public r" and "\<not> is_reply r"
    and "pk r = review_id obj"
  shows "\<exists>j. action_of through rs obj = To_entry j \<and>
             j < length (filter (\<lambda>r. public r \<and> \<not> is_reply r) rs) \<and>
             filter (\<lambda>r. public r \<and> \<not> is_reply r) rs ! j = r"
proof -
  have look: "map_of (id_map_of rs) (review_id obj) = Some r"
    using id_map_of_lookup [OF assms(1-3)] assms(5) by simp
  have "dict_has (entry_map_of rs) (pk r)"
    using assms(2-4) by (auto simp: entry_map_has)
  then obtain j where j: "map_of (snd (build_entries (filter public rs))) (pk r) = Some j"
    by (auto simp: dict_has_def entry_map_of_def)
  from build_entries_lookup [OF j] obtain b where
    len: "j < length (fst (build_entries (filter public rs)))"
    and b: "b \<in> set rs" "public b" "\<not> is_reply b" "pk b = pk r"
    and nth: "fst (build_entries (filter public rs)) ! j = new_entry b"
    by auto
  from pk_inj [OF assms(1) b(1) assms(2) b(4)] have br: "b = r" .
  have len': "j < length (filter (\<lambda>r. \<not> is_reply r) (filter public rs))"
    using len by (simp add: build_entries_fst)
  have "new_entry (filter (\<lambda>r. \<not> is_reply r) (filter public rs) ! j) = new_entry r"
    using nth len' br by (simp add: build_entries_fst)
  then have "filter (\<lambda>r. \<not> is_reply r) (filter public rs) ! j = r"
    by (simp add: new_entry_def)
  moreover have "action_of through rs obj = To_entry j"
    using look j assms(3,4,5) by (simp add: action_of_def row_action_def entry_map_of_def)
  ultimately show ?thesis using len' by (auto simp: conj_commute)
qed

section \<open>Where a comment is attached\<close>

lemma garc_raise_isl:
  assumes "obj \<in> set (fetched through rs)" and "is_raise (action_of through rs obj)"
  shows "isl (get_all_review_comments through rs)"
proof (cases "get_all_review_comments through rs")
  case (Inl err)
  then show ?thesis by simp
next
  case (Inr res)
  from garc_no_raise [OF Inr assms(1)] assms(2) show ?thesis by simp
qed

lemma garc_attached_entry:
  assumes "get_all_review_comments through rs = Inr res"
    and "e \<in> set (res_entries res)" and "a \<in> set (diff_comments e)"
  shows "a < length (fetched through rs) \<and>
         (\<exists>j. action_of through rs (fetched through rs ! a) = To_entry j)"
proof -
  from assms(2) obtain j where j: "j < length (res_entries res)" and e: "e = res_entries res ! j"
    by (auto simp: in_set_conv_nth)
  from assms(3) show ?thesis
    unfolding e garc_mem_diff_comments [OF assms(1) j] by blast
qed

lemma garc_attached_reply:
  assumes "get_all_review_comments through rs = Inr res"
    and "c \<in> set (res_heap res)" and "a \<in> set (c_replies c)"
  shows "a < length (fetched through rs) \<and>
         (\<exists>b. action_of through rs (fetched through rs ! a) = Reply_to b)"
proof -
  from assms(2) obtain b where b: "b < length (fetched through rs)" and c: "c = res_heap res ! b"
    by (auto simp: in_set_conv_nth garc_heap_length [OF assms(1)])
  from assms(3) show ?thesis
    unfolding c garc_mem_replies [OF assms(1) b] by blast
qed

section \<open>Reviews that are not public\<close>

lemma multimap_public:
  assumes "map_of (fold (\<lambda>r d. if public r then store_reply (sel r) r d else d) rs []) p = Some l"
    and "x \<in> set l"
  shows "public x \<and> x \<in> set rs"
  using assms by (auto simp: multimap_lookup split: if_splits)

text \<open>
  Claim C3. Let the reviews have pairwise different keys, and let reconstruction return.
  A review that is not public is the review of no returned entry, is in no
  body-top or body-bottom reply list and in no list of the dictionary of base replies; no
  row of it is fetched, and every comment in a comment list or in a reply list is the
  object of a fetched row.
\<close>

theorem non_public_review_invisible:
  assumes "distinct (map pk rs)"
    and "get_all_review_comments through rs = Inr res"
    and "r \<in> set rs" and "\<not> public r"
  shows "(\<forall>e \<in> set (res_entries res). entry_review e \<noteq> r) \<and>
         (\<forall>p l. map_of (top_replies_of res) p = Some l \<longrightarrow> r \<notin> set l) \<and>
         (\<forall>p l. map_of (bottom_replies_of res) p = Some l \<longrightarrow> r \<notin> set l) \<and>
         (\<forall>s p l. scan_reviews rs = Inr s \<longrightarrow> map_of (replies s) p = Some l \<longrightarrow> r \<notin> set l) \<and>
         (\<forall>obj \<in> set (fetched through rs). review_id obj \<noteq> pk r) \<and>
         (\<forall>a. (\<exists>e \<in> set (res_entries res). a \<in> set (diff_comments e)) \<or>
               (\<exists>c \<in> set (res_heap res). a \<in> set (c_replies c)) \<longrightarrow>
               a < length (fetched through rs))"
proof -
  have entries: "\<forall>e \<in> set (res_entries res). entry_review e \<noteq> r"
  proof
    fix e assume "e \<in> set (res_entries res)"
    then have "entry_review e \<in> set (map entry_review (res_entries res))" by simp
    then have "public (entry_review e)"
      unfolding garc_entry_reviews [OF assms(2)] by simp
    then show "entry_review e \<noteq> r" using assms(4) by auto
  qed
  have tops: "\<forall>p l. map_of (top_replies_of res) p = Some l \<longrightarrow> r \<notin> set l"
    using assms(4) by (auto simp: garc_top_replies [OF assms(2)] split: if_splits)
  have bottoms: "\<forall>p l. map_of (bottom_replies_of res) p = Some l \<longrightarrow> r \<notin> set l"
    using assms(4) by (auto simp: garc_bottom_replies [OF assms(2)] split: if_splits)
  have base: "\<forall>s p l. scan_reviews rs = Inr s \<longrightarrow> map_of (replies s) p = Some l \<longrightarrow> r \<notin> set l"
    using assms(4) by (auto simp: scan_replies dest: multimap_public)
  have rows: "\<forall>obj \<in> set (fetched through rs). review_id obj \<noteq> pk r"
  proof
    fix obj assume "obj \<in> set (fetched through rs)"
    then obtain b where b: "b \<in> set rs" "public b" "pk b = review_id obj"
      using fetched_owner by blast
    show "review_id obj \<noteq> pk r"
    proof
      assume "review_id obj = pk r"
      then have "b = r" using pk_inj [OF assms(1) b(1) assms(3)] b(3) by simp
      then show False using b(2) assms(4) by simp
    qed
  qed
  have attached: "\<forall>a. (\<exists>e \<in> set (res_entries res). a \<in> set (diff_comments e)) \<or>
               (\<exists>c \<in> set (res_heap res). a \<in> set (c_replies c)) \<longrightarrow>
               a < length (fetched through rs)"
    using garc_attached_entry [OF assms(2)] garc_attached_reply [OF assms(2)] by blast
  from entries tops bottoms base rows attached show ?thesis by blast
qed

section \<open>When reconstruction returns\<close>

lemma multimap_keys:
  assumes "(k, l) \<in> set (fold (\<lambda>r d. if public r then store_reply (sel r) r d else d) rs [])"
  shows "\<exists>r \<in> set rs. public r \<and> sel r = Some k"
proof -
  from assms have "k \<in> fst ` set (fold (\<lambda>r d. if public r then store_reply (sel r) r d else d)
      rs [])"
    by (rule image_eqI [rotated]) simp
  then have "map_of (fold (\<lambda>r d. if public r then store_reply (sel r) r d else d) rs []) k
      \<noteq> None"
    by (simp add: map_of_eq_None_iff)
  then show ?thesis by (auto simp: multimap_lookup split: if_splits)
qed

lemma garc_total:
  assumes top: "\<And>r k. r \<in> set rs \<Longrightarrow> public r \<Longrightarrow> body_top_reply_to_id r = Some k \<Longrightarrow>
                  \<exists>t \<in> set rs. public t \<and> pk t = k"
    and bottom: "\<And>r k. r \<in> set rs \<Longrightarrow> public r \<Longrightarrow> body_bottom_reply_to_id r = Some k \<Longrightarrow>
                  \<exists>t \<in> set rs. public t \<and> pk t = k"
    and rows: "\<And>obj. obj \<in> set (fetched through rs) \<Longrightarrow> \<not> is_raise (action_of through rs obj)"
  shows "\<exists>res. get_all_review_comments through rs = Inr res"
proof -
  obtain s where s: "scan_reviews rs = Inr s" using scan_reviews_total by blast
  have "\<exists>tops. link_replies (reviews_id_map s) (body_top_replies s) (top_attr s) = Inr tops"
  proof (rule link_replies_total)
    fix k l assume "(k, l) \<in> set (body_top_replies s)"
    then obtain r where "r \<in> set rs" "public r" "body_top_reply_to_id r = Some k"
      unfolding scan_body_top [OF s] by (blast dest: multimap_keys)
    from top [OF this] show "dict_has (reviews_id_map s) k"
      by (simp add: scan_id_map_has [OF s])
  qed
  then obtain tops where
    tops: "link_replies (reviews_id_map s) (body_top_replies s) (top_attr s) = Inr tops" ..
  have "\<exists>bottoms. link_replies (reviews_id_map s) (body_bottom_replies s) (bottom_attr s) =
          Inr bottoms"
  proof (rule link_replies_total)
    fix k l assume "(k, l) \<in> set (body_bottom_replies s)"
    then obtain r where "r \<in> set rs" "public r" "body_bottom_reply_to_id r = Some k"
      unfolding scan_body_bottom [OF s] by (blast dest: multimap_keys)
    from bottom [OF this] show "dict_has (reviews_id_map s) k"
      by (simp add: scan_id_map_has [OF s])
  qed
  then obtain bottoms where
    bottoms: "link_replies (reviews_id_map s) (body_bottom_replies s) (bottom_attr s) =
                Inr bottoms" ..
  have loop: "for_each (attach_comment (id_map_of rs) (entry_map_of rs) (comment_map_of through rs))
           (enumerate 0 (fetched through rs))
           (init_heap (fetched through rs), fst (build_entries (filter public rs))) =
         Inr (fold (row_heap (id_map_of rs) (entry_map_of rs) (comment_map_of through rs))
                (enumerate 0 (fetched through rs)) (init_heap (fetched through rs)),
              fold (row_entries (id_map_of rs) (entry_map_of rs) (comment_map_of through rs))
                (enumerate 0 (fetched through rs)) (fst (build_entries (filter public rs))))"
  proof (rule attach_loop_ok [OF init_heap_rows])
    fix row assume "row \<in> set (enumerate 0 (fetched through rs))"
    then have "snd row \<in> set (fetched through rs)"
      by (metis in_set_enumerate_eq nth_mem diff_zero add_0_right)
    from rows [OF this]
    show "\<not> is_raise (row_action (id_map_of rs) (entry_map_of rs) (comment_map_of through rs)
                 (snd row))"
      by (simp add: action_of_def)
  qed simp
  show ?thesis by (simp add: garc_unfold [OF s] tops bottoms loop)
qed

lemma filter_eq_single:
  "distinct xs \<Longrightarrow> x \<in> set xs \<Longrightarrow> filter (\<lambda>y. y = x) xs = [x]"
  by (induction xs) (auto simp: filter_empty_conv)

text \<open>
  Claim C4, as amended. Let the reviews have pairwise different keys and hold exactly one
  public top-level review, let every
  other public review be a reply to it, let every body reply name a public review, and let
  every comment of a reply-review that answers a comment answer a fetched one. Then
  reconstruction returns exactly one entry, for the top-level review, and the
  top-reply-list of that review holds the public reviews whose \<^verbatim>\<open>body_top_reply_to\<close> is
  that review, in fetch order; when these are exactly the replies, the list is the list of
  the replies in fetch order.
\<close>

theorem single_top_level_review:
  assumes d: "distinct (map pk rs)"
    and top: "parent \<in> set rs" "public parent" "\<not> is_reply parent"
    and others: "\<And>r. r \<in> set rs \<Longrightarrow> public r \<Longrightarrow> r \<noteq> parent \<Longrightarrow>
                   base_reply_to_id r = Some (pk parent)"
    and targets: "\<And>r k. r \<in> set rs \<Longrightarrow> public r \<Longrightarrow>
                   body_top_reply_to_id r = Some k \<or> body_bottom_reply_to_id r = Some k \<Longrightarrow>
                   \<exists>t \<in> set rs. public t \<and> pk t = k"
    and rows: "\<And>obj t. obj \<in> set (fetched through rs) \<Longrightarrow> review_id obj \<noteq> pk parent \<Longrightarrow>
                 reply_to_id (row_comment obj) = Some t \<Longrightarrow>
                 t \<in> (\<lambda>obj. comment_pk (row_comment obj)) ` set (fetched through rs)"
  shows "\<exists>res. get_all_review_comments through rs = Inr res \<and>
           map entry_review (res_entries res) = [parent] \<and>
           map_of (top_replies_of res) (pk parent) =
             Some (filter (\<lambda>r. public r \<and> body_top_reply_to_id r = Some (pk parent)) rs) \<and>
           ((\<forall>r \<in> set rs. public r \<longrightarrow> (body_top_reply_to_id r = Some (pk parent)) = (r \<noteq> parent)) \<longrightarrow>
              map_of (top_replies_of res) (pk parent) = Some (filter (\<lambda>r. public r \<and> r \<noteq> parent) rs))"
proof -
  have no_raise: "\<not> is_raise (action_of through rs obj)"
    if obj: "obj \<in> set (fetched through rs)" for obj
  proof -
    from fetched_owner [OF obj] obtain r where
      r: "r \<in> set rs" "public r" "pk r = review_id obj" by blast
    show ?thesis
    proof (cases "r = parent")
      case True
      from action_of_top_review [OF d r(1,2) _ r(3), of through] top(3) True
      show ?thesis by auto
    next
      case False
      from others [OF r(1,2) False] have base: "base_reply_to_id r = Some (pk parent)" .
      then have reply: "is_reply r" by (simp add: is_reply_def)
      have ex: "\<exists>b \<in> set rs. public b \<and> \<not> is_reply b \<and> base_reply_to_id r = Some (pk b)"
        using top base by blast
      have ne: "review_id obj \<noteq> pk parent"
        using pk_inj [OF d r(1) top(1)] r(3) False by auto
      note act = action_of_reply_review [OF d r(1,2) reply r(3), of through]
      show ?thesis
      proof (cases "reply_to_id (row_comment obj)")
        case None
        then show ?thesis using act ex by simp
      next
        case (Some t)
        from rows [OF obj ne Some] have "dict_has (comment_map_of through rs) t"
          by (simp add: comment_map_has)
        then obtain a where "map_of (comment_map_of through rs) t = Some a"
          by (auto simp: dict_has_def)
        then show ?thesis using act ex Some by simp
      qed
    qed
  qed
  have "\<exists>res. get_all_review_comments through rs = Inr res"
  proof (rule garc_total)
    fix r k assume "r \<in> set rs" "public r" "body_top_reply_to_id r = Some k"
    then show "\<exists>t \<in> set rs. public t \<and> pk t = k" using targets [of r k] by simp
  next
    fix r k assume "r \<in> set rs" "public r" "body_bottom_reply_to_id r = Some k"
    then show "\<exists>t \<in> set rs. public t \<and> pk t = k" using targets [of r k] by simp
  next
    fix obj assume "obj \<in> set (fetched through rs)"
    then show "\<not> is_raise (action_of through rs obj)" by (rule no_raise)
  qed
  then obtain res where res: "get_all_review_comments through rs = Inr res" ..
  have "filter (\<lambda>r. public r \<and> \<not> is_reply r) rs = filter (\<lambda>r. r = parent) rs"
  proof (rule filter_cong [OF refl])
    fix r assume r: "r \<in> set rs"
    show "(public r \<and> \<not> is_reply r) = (r = parent)"
    proof (cases "r = parent")
      case True
      then show ?thesis using top by simp
    next
      case False
      have "public r \<Longrightarrow> is_reply r"
        using others [OF r _ False] by (simp add: is_reply_def)
      then show ?thesis using False by blast
    qed
  qed
  also have "\<dots> = [parent]"
    using d top(1) by (simp add: filter_eq_single distinct_map)
  finally have entries: "map entry_review (res_entries res) = [parent]"
    by (simp add: garc_entry_reviews [OF res])
  have tops: "map_of (top_replies_of res) (pk parent) =
             Some (filter (\<lambda>r. public r \<and> body_top_reply_to_id r = Some (pk parent)) rs)"
    using top(1) by (simp add: garc_top_replies [OF res])
  have all: "map_of (top_replies_of res) (pk parent) = Some (filter (\<lambda>r. public r \<and> r \<noteq> parent) rs)"
    if "\<forall>r \<in> set rs. public r \<longrightarrow> (body_top_reply_to_id r = Some (pk parent)) = (r \<noteq> parent)"
  proof -
    have "filter (\<lambda>r. public r \<and> body_top_reply_to_id r = Some (pk parent)) rs =
          filter (\<lambda>r. public r \<and> r \<noteq> parent) rs"
      by (rule filter_cong [OF refl]) (use that in auto)
    then show ?thesis using tops by simp
  qed
  show ?thesis
    by (rule exI [of _ res]) (intro conjI impI res entries tops all)
qed

section \<open>Orphaned comments\<close>

lemma enumerate_split:
  assumes "i < length xs"
  shows "enumerate 0 xs =
           enumerate 0 (take i xs) @ (i, xs ! i) # enumerate (Suc i) (drop (Suc i) xs)"
proof -
  have "enumerate 0 xs = enumerate 0 (take i xs @ xs ! i # drop (Suc i) xs)"
    using id_take_nth_drop [OF assms] by (rule arg_cong [where f = "enumerate 0"])
  also have "\<dots> = enumerate 0 (take i xs) @ (i, xs ! i) # enumerate (Suc i) (drop (Suc i) xs)"
    using assms by (simp add: enumerate_append_eq min_def)
  finally show ?thesis .
qed

text \<open>The second loop raises the exception of the first row that raises.\<close>

lemma attach_loop_first_raise:
  assumes rows: "\<And>i obj. (i, obj) \<in> set (pre @ (k, row) # post) \<Longrightarrow>
                   reply_to_id (h ! i) = reply_to_id (row_comment obj)"
    and pre: "\<And>p. p \<in> set pre \<Longrightarrow> \<not> is_raise (row_action id_map rem cmap (snd p))"
    and raise: "row_action id_map rem cmap row = Raise e"
  shows "for_each (attach_comment id_map rem cmap) (pre @ (k, row) # post) (h, es) = Inl e"
proof -
  have first: "for_each (attach_comment id_map rem cmap) pre (h, es) =
           Inr (fold (row_heap id_map rem cmap) pre h, fold (row_entries id_map rem cmap) pre es)"
  proof (rule attach_loop_ok)
    fix i obj assume "(i, obj) \<in> set pre"
    then show "reply_to_id (h ! i) = reply_to_id (row_comment obj)"
      using rows [of i obj] by simp
  qed (rule pre)
  have "reply_to_id (fold (row_heap id_map rem cmap) pre h ! k) = reply_to_id (row_comment row)"
    using rows [of k row] by (simp add: fold_row_heap_static)
  from attach_comment_eq [OF this, of id_map rem cmap "fold (row_entries id_map rem cmap) pre es"]
  have "attach_comment id_map rem cmap (k, row)
          (fold (row_heap id_map rem cmap) pre h, fold (row_entries id_map rem cmap) pre es) =
        Inl e"
    by (simp add: raise)
  then show ?thesis by (simp add: for_each_append first bind_err_def)
qed

lemma garc_links:
  assumes tp: "targets_public rs" and s: "scan_reviews rs = Inr s"
  shows "\<exists>tops bottoms.
           link_replies (reviews_id_map s) (body_top_replies s) (top_attr s) = Inr tops \<and>
           link_replies (reviews_id_map s) (body_bottom_replies s) (bottom_attr s) = Inr bottoms"
proof -
  have "\<exists>tops. link_replies (reviews_id_map s) (body_top_replies s) (top_attr s) = Inr tops"
  proof (rule link_replies_total)
    fix k l assume "(k, l) \<in> set (body_top_replies s)"
    then obtain r where "r \<in> set rs" "public r" "body_top_reply_to_id r = Some k"
      unfolding scan_body_top [OF s] by (blast dest: multimap_keys)
    then have "\<exists>t \<in> set rs. public t \<and> pk t = k"
      using tp unfolding targets_public_def by blast
    then show "dict_has (reviews_id_map s) k"
      by (simp add: scan_id_map_has [OF s])
  qed
  moreover
  have "\<exists>bottoms. link_replies (reviews_id_map s) (body_bottom_replies s) (bottom_attr s) =
          Inr bottoms"
  proof (rule link_replies_total)
    fix k l assume "(k, l) \<in> set (body_bottom_replies s)"
    then obtain r where "r \<in> set rs" "public r" "body_bottom_reply_to_id r = Some k"
      unfolding scan_body_bottom [OF s] by (blast dest: multimap_keys)
    then have "\<exists>t \<in> set rs. public t \<and> pk t = k"
      using tp unfolding targets_public_def by blast
    then show "dict_has (reviews_id_map s) k"
      by (simp add: scan_id_map_has [OF s])
  qed
  ultimately show ?thesis by blast
qed

text \<open>
  When the body replies can be linked, reconstruction raises the exception of the first
  fetched row that raises.
\<close>

lemma garc_first_raise:
  assumes tp: "targets_public rs"
    and i: "i < length (fetched through rs)"
    and before: "\<And>j. j < i \<Longrightarrow> \<not> is_raise (action_of through rs (fetched through rs ! j))"
    and raise: "action_of through rs (fetched through rs ! i) = Raise e"
  shows "get_all_review_comments through rs = Inl e"
proof -
  let ?F = "fetched through rs"
  obtain s where s: "scan_reviews rs = Inr s" using scan_reviews_total by blast
  from garc_links [OF tp s] obtain tops bottoms where
    tops: "link_replies (reviews_id_map s) (body_top_replies s) (top_attr s) = Inr tops"
    and bottoms: "link_replies (reviews_id_map s) (body_bottom_replies s) (bottom_attr s) =
                    Inr bottoms"
    by blast
  have split: "enumerate 0 ?F =
      enumerate 0 (take i ?F) @ (i, ?F ! i) # enumerate (Suc i) (drop (Suc i) ?F)"
    using i by (rule enumerate_split)
  have "for_each (attach_comment (id_map_of rs) (entry_map_of rs) (comment_map_of through rs))
           (enumerate 0 (take i ?F) @ (i, ?F ! i) # enumerate (Suc i) (drop (Suc i) ?F))
           (init_heap ?F, fst (build_entries (filter public rs))) = Inl e"
  proof (rule attach_loop_first_raise)
    fix j obj
    assume "(j, obj) \<in> set (enumerate 0 (take i ?F) @ (i, ?F ! i) #
                               enumerate (Suc i) (drop (Suc i) ?F))"
    then have "(j, obj) \<in> set (enumerate 0 ?F)" by (simp only: split [symmetric])
    then show "reply_to_id (init_heap ?F ! j) = reply_to_id (row_comment obj)"
      by (rule init_heap_rows)
  next
    fix p assume "p \<in> set (enumerate 0 (take i ?F))"
    then have "fst p < i" "snd p = ?F ! fst p"
      by (auto simp: in_set_enumerate_eq)
    with before [of "fst p"]
    show "\<not> is_raise (row_action (id_map_of rs) (entry_map_of rs) (comment_map_of through rs)
                 (snd p))"
      by (simp add: action_of_def)
  next
    show "row_action (id_map_of rs) (entry_map_of rs) (comment_map_of through rs) (?F ! i) =
            Raise e"
      using raise by (simp add: action_of_def)
  qed
  then have "for_each (attach_comment (id_map_of rs) (entry_map_of rs) (comment_map_of through rs))
           (enumerate 0 ?F) (init_heap ?F, fst (build_entries (filter public rs))) = Inl e"
    by (simp only: split [symmetric])
  then show ?thesis by (simp add: garc_unfold [OF s] tops bottoms)
qed

text \<open>A fetched row that passes does not raise.\<close>

lemma row_passes_action:
  assumes d: "distinct (map pk rs)" and obj: "obj \<in> set (fetched through rs)"
    and pass: "row_passes through rs obj"
  shows "\<not> is_raise (action_of through rs obj)"
proof -
  from fetched_owner [OF obj] obtain r where
    r: "r \<in> set rs" "public r" "pk r = review_id obj" by blast
  show ?thesis
  proof (cases "is_reply r")
    case False
    from action_of_top_review [OF d r(1,2) False r(3), of through] show ?thesis by auto
  next
    case True
    from pass r True have base: "base_is_entry rs r"
      and target: "\<And>t. reply_to_id (row_comment obj) = Some t \<Longrightarrow> t \<in> fetched_keys through rs"
      unfolding row_passes_def by blast+
    note act = action_of_reply_review [OF d r(1,2) True r(3), of through]
    show ?thesis
    proof (cases "reply_to_id (row_comment obj)")
      case None
      then show ?thesis using act base by (simp add: base_is_entry_def)
    next
      case (Some t)
      from target [OF Some] have "dict_has (comment_map_of through rs) t"
        by (simp add: comment_map_has fetched_keys_def)
      then obtain a where "map_of (comment_map_of through rs) t = Some a"
        by (auto simp: dict_has_def)
      then show ?thesis using act base Some by (simp add: base_is_entry_def)
    qed
  qed
qed

text \<open>
  Claim C2, as amended. Let the reviews have pairwise different keys, and take a fetched
  row and its owning review, which is public.

  If the review is a reply-review and the comment has no \<^verbatim>\<open>reply_to\<close>, the comment is
  dropped: whenever reconstruction returns, the comment is in the comment list of no entry
  and in the reply list of no comment.

  If the review is a reply-review whose \<^verbatim>\<open>base_reply_to\<close> is not an entry,
  reconstruction raises; when the body replies can be linked and the rows before this one
  pass, what it raises is the \<^verbatim>\<open>AssertionError\<close> of line 171, whatever the
  \<^verbatim>\<open>reply_to\<close> of the comment is.

  If the review is a reply-review whose \<^verbatim>\<open>base_reply_to\<close> is an entry and the
  \<^verbatim>\<open>reply_to\<close> of the comment names a comment that is not among the fetched rows,
  reconstruction raises; when the body replies can be linked and the rows before this one
  pass, what it raises is the \<^verbatim>\<open>KeyError\<close> of line 176 for that key.

  If the review is a top-level review, the comment is appended to the comment list of the
  entry of the review, and to no reply list, whatever its \<^verbatim>\<open>reply_to\<close> is.

  Reconstruction returns when the body replies can be linked and every fetched row passes.
\<close>

theorem orphaned_comment:
  assumes "distinct (map pk rs)"
    and "i < length (fetched through rs)"
    and "r \<in> set rs" and "public r"
    and "pk r = review_id (fetched through rs ! i)"
  shows "(is_reply r \<and> reply_to_id (row_comment (fetched through rs ! i)) = None \<longrightarrow>
            (\<forall>res. get_all_review_comments through rs = Inr res \<longrightarrow>
               (\<forall>e \<in> set (res_entries res). i \<notin> set (diff_comments e)) \<and>
               (\<forall>c \<in> set (res_heap res). i \<notin> set (c_replies c)))) \<and>
         (is_reply r \<and> \<not> base_is_entry rs r \<longrightarrow>
            isl (get_all_review_comments through rs) \<and>
            (targets_public rs \<and>
             (\<forall>j<i. row_passes through rs (fetched through rs ! j)) \<longrightarrow>
               get_all_review_comments through rs = Inl AssertionError)) \<and>
         (\<forall>t. is_reply r \<and> base_is_entry rs r \<and>
              reply_to_id (row_comment (fetched through rs ! i)) = Some t \<and>
              t \<notin> fetched_keys through rs \<longrightarrow>
            isl (get_all_review_comments through rs) \<and>
            (targets_public rs \<and>
             (\<forall>j<i. row_passes through rs (fetched through rs ! j)) \<longrightarrow>
               get_all_review_comments through rs = Inl (KeyError (Some t)))) \<and>
         (\<not> is_reply r \<longrightarrow>
            (\<forall>res. get_all_review_comments through rs = Inr res \<longrightarrow>
               (\<exists>e \<in> set (res_entries res). entry_review e = r \<and> i \<in> set (diff_comments e)) \<and>
               (\<forall>c \<in> set (res_heap res). i \<notin> set (c_replies c)))) \<and>
         (targets_public rs \<and>
          (\<forall>j < length (fetched through rs). row_passes through rs (fetched through rs ! j)) \<longrightarrow>
            (\<exists>res. get_all_review_comments through rs = Inr res))"
proof -
  let ?F = "fetched through rs"
  let ?obj = "?F ! i"
  have mem: "?obj \<in> set ?F" using assms(2) by simp
  have earlier: "\<not> is_raise (action_of through rs (?F ! j))"
    if "\<forall>j<i. row_passes through rs (?F ! j)" and "j < i" for j
  proof (rule row_passes_action [OF assms(1)])
    show "?F ! j \<in> set ?F" using that(2) assms(2) by simp
    show "row_passes through rs (?F ! j)" using that by blast
  qed
  have drop: "(\<forall>e \<in> set (res_entries res). i \<notin> set (diff_comments e)) \<and>
              (\<forall>c \<in> set (res_heap res). i \<notin> set (c_replies c))"
    if reply: "is_reply r" and none: "reply_to_id (row_comment ?obj) = None"
      and res: "get_all_review_comments through rs = Inr res" for res
  proof -
    note act = action_of_reply_review [OF assms(1,3,4) reply assms(5), of through]
    have "action_of through rs ?obj = Raise AssertionError \<or> action_of through rs ?obj = Drop"
      using act none by (simp split: if_splits)
    then have a: "\<And>j. action_of through rs ?obj \<noteq> To_entry j"
      "\<And>b. action_of through rs ?obj \<noteq> Reply_to b"
      by auto
    show ?thesis
      using garc_attached_entry [OF res] garc_attached_reply [OF res] a by blast
  qed
  have no_base: "isl (get_all_review_comments through rs) \<and>
            (targets_public rs \<and> (\<forall>j<i. row_passes through rs (?F ! j)) \<longrightarrow>
               get_all_review_comments through rs = Inl AssertionError)"
    if reply: "is_reply r" and nb: "\<not> base_is_entry rs r"
  proof -
    note act = action_of_reply_review [OF assms(1,3,4) reply assms(5), of through]
    have raise: "action_of through rs ?obj = Raise AssertionError"
      using act nb by (simp add: base_is_entry_def)
    then have "is_raise (action_of through rs ?obj)" by simp
    with mem have "isl (get_all_review_comments through rs)" by (rule garc_raise_isl)
    moreover have "get_all_review_comments through rs = Inl AssertionError"
      if "targets_public rs" and "\<forall>j<i. row_passes through rs (?F ! j)"
      by (rule garc_first_raise [OF that(1) assms(2) earlier [OF that(2)] raise])
    ultimately show ?thesis by blast
  qed
  have missing: "isl (get_all_review_comments through rs) \<and>
            (targets_public rs \<and> (\<forall>j<i. row_passes through rs (?F ! j)) \<longrightarrow>
               get_all_review_comments through rs = Inl (KeyError (Some t)))"
    if reply: "is_reply r" and base: "base_is_entry rs r"
      and t: "reply_to_id (row_comment ?obj) = Some t" "t \<notin> fetched_keys through rs" for t
  proof -
    note act = action_of_reply_review [OF assms(1,3,4) reply assms(5), of through]
    have "map_of (comment_map_of through rs) t = None"
      using t(2) comment_map_has [of through rs t] by (simp add: dict_has_def fetched_keys_def)
    then have raise: "action_of through rs ?obj = Raise (KeyError (Some t))"
      using act t(1) base by (simp add: base_is_entry_def)
    then have "is_raise (action_of through rs ?obj)" by simp
    with mem have "isl (get_all_review_comments through rs)" by (rule garc_raise_isl)
    moreover have "get_all_review_comments through rs = Inl (KeyError (Some t))"
      if "targets_public rs" and "\<forall>j<i. row_passes through rs (?F ! j)"
      by (rule garc_first_raise [OF that(1) assms(2) earlier [OF that(2)] raise])
    ultimately show ?thesis by blast
  qed
  have attached: "(\<exists>e \<in> set (res_entries res). entry_review e = r \<and> i \<in> set (diff_comments e)) \<and>
               (\<forall>c \<in> set (res_heap res). i \<notin> set (c_replies c))"
    if top: "\<not> is_reply r" and res: "get_all_review_comments through rs = Inr res" for res
  proof -
    from action_of_top_review [OF assms(1,3,4) top assms(5), of through] obtain j where
      act: "action_of through rs ?obj = To_entry j"
      and j: "j < length (filter (\<lambda>r. public r \<and> \<not> is_reply r) rs)"
      and nth: "filter (\<lambda>r. public r \<and> \<not> is_reply r) rs ! j = r"
      by blast
    have len: "j < length (res_entries res)"
      using j by (simp add: garc_entries_length [OF res])
    have "map entry_review (res_entries res) ! j = r"
      using nth by (simp only: garc_entry_reviews [OF res])
    then have rev: "entry_review (res_entries res ! j) = r" using len by simp
    have "i \<in> set (diff_comments (res_entries res ! j))"
      using act assms(2) by (simp add: garc_mem_diff_comments [OF res len])
    then have "\<exists>e \<in> set (res_entries res). entry_review e = r \<and> i \<in> set (diff_comments e)"
      using rev len nth_mem by blast
    moreover have "\<forall>c \<in> set (res_heap res). i \<notin> set (c_replies c)"
      using garc_attached_reply [OF res] act by fastforce
    ultimately show ?thesis ..
  qed
  have returns: "\<exists>res. get_all_review_comments through rs = Inr res"
    if tp: "targets_public rs" and all: "\<forall>j < length ?F. row_passes through rs (?F ! j)"
  proof (rule garc_total)
    fix r k assume "r \<in> set rs" "public r" "body_top_reply_to_id r = Some k"
    then show "\<exists>t \<in> set rs. public t \<and> pk t = k"
      using tp unfolding targets_public_def by blast
  next
    fix r k assume "r \<in> set rs" "public r" "body_bottom_reply_to_id r = Some k"
    then show "\<exists>t \<in> set rs. public t \<and> pk t = k"
      using tp unfolding targets_public_def by blast
  next
    fix obj assume obj: "obj \<in> set ?F"
    then have "row_passes through rs obj" using all by (auto simp: in_set_conv_nth)
    with assms(1) obj show "\<not> is_raise (action_of through rs obj)" by (rule row_passes_action)
  qed
  show ?thesis
    using drop no_base missing attached returns by (intro conjI impI allI) blast+
qed

section \<open>Examples of reconstruction\<close>

text \<open>The store with the two-cycle is one that reconstruction builds.\<close>

lemma cycle_heap_reconstructed:
  "map_sum id res_heap (get_all_review_comments
     [\<lparr>review_id = 2,
        row_comment = \<lparr>comment_pk = 10, comment_text = ''A'', reply_to_id = Some 11\<rparr>\<rparr>,
      \<lparr>review_id = 2,
        row_comment = \<lparr>comment_pk = 11, comment_text = ''B'', reply_to_id = Some 10\<rparr>\<rparr>]
     [top_review, reply_review]) = Inr cycle_heap"
  by (simp add: eval_defs top_review_def reply_review_def cycle_heap_def)

lemma thread_reconstruction:
  "get_all_review_comments thread_rows thread_reviews = Inr thread_result"
  by (simp add: eval_defs thread_rows_def thread_reviews_def thread_result_def top_review_def
      draft_review_def reply_review_def)

lemma thread_fetched:
  "fetched thread_rows thread_reviews =
     [\<lparr>review_id = 1,
        row_comment = \<lparr>comment_pk = 10, comment_text = ''Rename this'', reply_to_id = None\<rparr>\<rparr>,
      \<lparr>review_id = 2,
        row_comment = \<lparr>comment_pk = 11, comment_text = ''Done'', reply_to_id = Some 10\<rparr>\<rparr>,
      \<lparr>review_id = 2,
        row_comment = \<lparr>comment_pk = 12, comment_text = ''Stray'', reply_to_id = None\<rparr>\<rparr>]"
  by (simp add: fetched_def thread_rows_def thread_reviews_def top_review_def
      draft_review_def reply_review_def)

lemma thread_distinct: "distinct (map pk thread_reviews)"
  by (simp add: thread_reviews_def top_review_def draft_review_def reply_review_def)

lemma stray_fetched: "fetched [stray_row] [top_review, stray_review] = [stray_row]"
  by (simp add: fetched_def stray_row_def top_review_def stray_review_def)

lemma missing_fetched: "fetched [missing_row] [top_review, reply_review] = [missing_row]"
  by (simp add: fetched_def missing_row_def top_review_def reply_review_def)

lemma top_fetched: "fetched [top_row] [top_review] = [top_row]"
  by (simp add: fetched_def top_row_def top_review_def)

lemma top_row_reconstruction:
  "get_all_review_comments [top_row] [top_review] = Inr top_row_result"
  by (simp add: eval_defs top_row_def top_review_def top_row_result_def)

theorem orphaned_comment_witness:
  "reply_to_id (row_comment (fetched thread_rows thread_reviews ! 2)) = None \<and>
   pk reply_review = review_id (fetched thread_rows thread_reviews ! 2) \<and>
   is_reply reply_review \<and>
   get_all_review_comments thread_rows thread_reviews = Inr thread_result \<and>
   2 \<notin> set (concat (map diff_comments (res_entries thread_result))) \<and>
   2 \<notin> set (concat (map c_replies (res_heap thread_result))) \<and>
   reply_to_id (row_comment (fetched [stray_row] [top_review, stray_review] ! 0)) = Some 99 \<and>
   pk stray_review = review_id (fetched [stray_row] [top_review, stray_review] ! 0) \<and>
   is_reply stray_review \<and> \<not> base_is_entry [top_review, stray_review] stray_review \<and>
   get_all_review_comments [stray_row] [top_review, stray_review] = Inl AssertionError \<and>
   reply_to_id (row_comment (fetched [missing_row] [top_review, reply_review] ! 0)) = Some 99 \<and>
   pk reply_review = review_id (fetched [missing_row] [top_review, reply_review] ! 0) \<and>
   base_is_entry [top_review, reply_review] reply_review \<and>
   99 \<notin> fetched_keys [missing_row] [top_review, reply_review] \<and>
   get_all_review_comments [missing_row] [top_review, reply_review] = Inl (KeyError (Some 99)) \<and>
   reply_to_id (row_comment (fetched [top_row] [top_review] ! 0)) = Some 99 \<and>
   pk top_review = review_id (fetched [top_row] [top_review] ! 0) \<and>
   \<not> is_reply top_review \<and>
   get_all_review_comments [top_row] [top_review] = Inr top_row_result \<and>
   (\<exists>e \<in> set (res_entries top_row_result). entry_review e = top_review \<and>
      0 \<in> set (diff_comments e))"
proof -
  have pub: "public top_review" "public reply_review" "public stray_review"
    by (simp_all add: top_review_def reply_review_def stray_review_def)
  have rep: "is_reply reply_review" "is_reply stray_review" "\<not> is_reply top_review"
    by (simp_all add: top_review_def reply_review_def stray_review_def is_reply_def)
  have a1: "2 < length (fetched thread_rows thread_reviews)" by (simp add: thread_fetched)
  have a2: "reply_review \<in> set thread_reviews" by (simp add: thread_reviews_def)
  have a3: "pk reply_review = review_id (fetched thread_rows thread_reviews ! 2)"
    by (simp add: thread_fetched reply_review_def)
  have a4: "reply_to_id (row_comment (fetched thread_rows thread_reviews ! 2)) = None"
    by (simp add: thread_fetched)
  note A = orphaned_comment [OF thread_distinct a1 a2 pub(2) a3]
  from A [THEN conjunct1] rep(1) a4 thread_reconstruction
  have "(\<forall>e \<in> set (res_entries thread_result). 2 \<notin> set (diff_comments e)) \<and>
        (\<forall>c \<in> set (res_heap thread_result). 2 \<notin> set (c_replies c))"
    by blast
  then have a5: "2 \<notin> set (concat (map diff_comments (res_entries thread_result)))"
    and a6: "2 \<notin> set (concat (map c_replies (res_heap thread_result)))"
    by auto
  have b0: "distinct (map pk [top_review, stray_review])"
    by (simp add: top_review_def stray_review_def)
  have b1: "0 < length (fetched [stray_row] [top_review, stray_review])"
    by (simp add: stray_fetched)
  have b2: "stray_review \<in> set [top_review, stray_review]" by simp
  have b3: "pk stray_review = review_id (fetched [stray_row] [top_review, stray_review] ! 0)"
    unfolding stray_fetched by (simp add: stray_row_def stray_review_def)
  have b4: "reply_to_id (row_comment (fetched [stray_row] [top_review, stray_review] ! 0)) = Some 99"
    unfolding stray_fetched by (simp add: stray_row_def)
  have b5: "\<not> base_is_entry [top_review, stray_review] stray_review"
    by (simp add: base_is_entry_def top_review_def stray_review_def is_reply_def)
  have b6: "targets_public [top_review, stray_review]"
    by (simp add: targets_public_def top_review_def stray_review_def)
  note B = orphaned_comment [OF b0 b1 b2 pub(3) b3]
  from B [THEN conjunct2, THEN conjunct1] rep(2) b5 b6
  have b7: "get_all_review_comments [stray_row] [top_review, stray_review] = Inl AssertionError"
    by simp
  have c0: "distinct (map pk [top_review, reply_review])"
    by (simp add: top_review_def reply_review_def)
  have c1: "0 < length (fetched [missing_row] [top_review, reply_review])"
    by (simp add: missing_fetched)
  have c2: "reply_review \<in> set [top_review, reply_review]" by simp
  have c3: "pk reply_review = review_id (fetched [missing_row] [top_review, reply_review] ! 0)"
    unfolding missing_fetched by (simp add: missing_row_def reply_review_def)
  have c4: "reply_to_id (row_comment (fetched [missing_row] [top_review, reply_review] ! 0)) =
              Some 99"
    unfolding missing_fetched by (simp add: missing_row_def)
  have c5: "base_is_entry [top_review, reply_review] reply_review"
    by (simp add: base_is_entry_def top_review_def reply_review_def is_reply_def)
  have c6: "99 \<notin> fetched_keys [missing_row] [top_review, reply_review]"
    unfolding fetched_keys_def missing_fetched by (simp add: missing_row_def)
  have c7: "targets_public [top_review, reply_review]"
    by (simp add: targets_public_def top_review_def reply_review_def)
  note C = orphaned_comment [OF c0 c1 c2 pub(2) c3]
  from C [THEN conjunct2, THEN conjunct2, THEN conjunct1, THEN spec, of 99] rep(1) c4 c5 c6 c7
  have c8: "get_all_review_comments [missing_row] [top_review, reply_review] =
              Inl (KeyError (Some 99))"
    by simp
  have d0: "distinct (map pk [top_review])" by simp
  have d1: "0 < length (fetched [top_row] [top_review])" by (simp add: top_fetched)
  have d2: "top_review \<in> set [top_review]" by simp
  have d3: "pk top_review = review_id (fetched [top_row] [top_review] ! 0)"
    unfolding top_fetched by (simp add: top_row_def top_review_def)
  have d4: "reply_to_id (row_comment (fetched [top_row] [top_review] ! 0)) = Some 99"
    unfolding top_fetched by (simp add: top_row_def)
  note D = orphaned_comment [OF d0 d1 d2 pub(1) d3]
  from D [THEN conjunct2, THEN conjunct2, THEN conjunct2, THEN conjunct1] rep(3)
    top_row_reconstruction
  have d5: "\<exists>e \<in> set (res_entries top_row_result). entry_review e = top_review \<and>
      0 \<in> set (diff_comments e)"
    by blast
  show ?thesis
    by (intro conjI a4 a3 rep thread_reconstruction a5 a6 b4 b3 b5 b7 c4 c3 c5 c6 c8 d4 d3
        top_row_reconstruction d5)
qed

text \<open>
  A comment of a reply-review whose \<^verbatim>\<open>reply_to\<close> is not fetched: reconstruction raises
  \<^verbatim>\<open>KeyError\<close>. A comment of a reply-review whose \<^verbatim>\<open>base_reply_to\<close> is not a
  top-level entry: reconstruction raises \<^verbatim>\<open>AssertionError\<close>. A comment of a top-level
  review whose \<^verbatim>\<open>reply_to\<close> is not fetched: reconstruction returns, with the comment in
  the comment list of the entry.
\<close>

theorem orphaned_comment_counterexample:
  "get_all_review_comments [missing_row] [top_review, reply_review] = Inl (KeyError (Some 99)) \<and>
   get_all_review_comments [stray_row] [top_review, stray_review] = Inl AssertionError \<and>
   get_all_review_comments [top_row] [top_review] =
     Inr \<lparr>res_entries =
            [\<lparr>entry_review = top_review, diff_comments = [0], entry_timestamp = 100\<rparr>],
          top_replies_of = [(1, [])],
          bottom_replies_of = [(1, [])],
          res_heap =
            [\<lparr>comment_pk = 13, comment_text = ''D'', reply_to_id = Some 99,
               c_replies = [], c_review = Some 1\<rparr>]\<rparr>"
  by (simp add: eval_defs missing_row_def stray_row_def top_row_def top_review_def
      reply_review_def stray_review_def)

theorem non_public_review_invisible_witness:
  "distinct (map pk thread_reviews) \<and>
   get_all_review_comments thread_rows thread_reviews = Inr thread_result \<and>
   draft_review \<in> set thread_reviews \<and> \<not> public draft_review \<and>
   draft_review \<notin> set (map entry_review (res_entries thread_result)) \<and>
   pk draft_review \<notin> set (map review_id (fetched thread_rows thread_reviews))"
proof -
  have a: "draft_review \<in> set thread_reviews" by (simp add: thread_reviews_def)
  have b: "\<not> public draft_review" by (simp add: draft_review_def)
  from non_public_review_invisible [OF thread_distinct thread_reconstruction a b]
  have "draft_review \<notin> set (map entry_review (res_entries thread_result)) \<and>
        pk draft_review \<notin> set (map review_id (fetched thread_rows thread_reviews))"
    by auto
  then show ?thesis using thread_distinct thread_reconstruction a b by blast
qed

text \<open>
  One public top-level review and one public reply to it, which answers the bottom of the
  body and not the top: there is one entry, and its top-reply-list is empty.
\<close>

theorem single_top_level_review_counterexample:
  "get_all_review_comments [] [top_review, reply_review] =
     Inr \<lparr>res_entries = [new_entry top_review],
          top_replies_of = [(1, []), (2, [])],
          bottom_replies_of = [(1, [reply_review]), (2, [])],
          res_heap = []\<rparr> \<and>
   public top_review \<and> base_reply_to_id top_review = None \<and>
   public reply_review \<and> base_reply_to_id reply_review = Some (pk top_review)"
  by (simp add: eval_defs top_review_def reply_review_def)

theorem single_top_level_review_witness:
  "distinct (map pk [top_review, answer_review]) \<and>
   top_review \<in> set [top_review, answer_review] \<and> public top_review \<and>
   \<not> is_reply top_review \<and>
   get_all_review_comments thread_rows [top_review, answer_review] =
     Inr \<lparr>res_entries =
            [\<lparr>entry_review = top_review, diff_comments = [0], entry_timestamp = 100\<rparr>],
          top_replies_of = [(1, [answer_review]), (4, [])],
          bottom_replies_of = [(1, []), (4, [])],
          res_heap =
            [\<lparr>comment_pk = 10, comment_text = ''Rename this'', reply_to_id = None,
               c_replies = [], c_review = Some 1\<rparr>]\<rparr> \<and>
   filter (\<lambda>r. public r \<and> r \<noteq> top_review) [top_review, answer_review] = [answer_review]"
proof -
  let ?rs = "[top_review, answer_review]"
  have d: "distinct (map pk ?rs)" by (simp add: top_review_def answer_review_def)
  have t1: "top_review \<in> set ?rs" by simp
  have t2: "public top_review" by (simp add: top_review_def)
  have t3: "\<not> is_reply top_review" by (simp add: top_review_def is_reply_def)
  have ne: "answer_review \<noteq> top_review" by (simp add: top_review_def answer_review_def)
  have others: "\<And>r. r \<in> set ?rs \<Longrightarrow> public r \<Longrightarrow> r \<noteq> top_review \<Longrightarrow>
                   base_reply_to_id r = Some (pk top_review)"
    by (auto simp: top_review_def answer_review_def)
  have targets: "\<And>r k. r \<in> set ?rs \<Longrightarrow> public r \<Longrightarrow>
                   body_top_reply_to_id r = Some k \<or> body_bottom_reply_to_id r = Some k \<Longrightarrow>
                   \<exists>t \<in> set ?rs. public t \<and> pk t = k"
    by (auto simp: top_review_def answer_review_def)
  have f: "fetched thread_rows ?rs =
     [\<lparr>review_id = 1,
        row_comment = \<lparr>comment_pk = 10, comment_text = ''Rename this'', reply_to_id = None\<rparr>\<rparr>]"
    by (simp add: fetched_def thread_rows_def top_review_def answer_review_def)
  have rows: "\<And>obj t. obj \<in> set (fetched thread_rows ?rs) \<Longrightarrow> review_id obj \<noteq> pk top_review \<Longrightarrow>
                 reply_to_id (row_comment obj) = Some t \<Longrightarrow>
                 t \<in> (\<lambda>obj. comment_pk (row_comment obj)) ` set (fetched thread_rows ?rs)"
    by (simp add: f)
  have run: "get_all_review_comments thread_rows ?rs =
     Inr \<lparr>res_entries =
            [\<lparr>entry_review = top_review, diff_comments = [0], entry_timestamp = 100\<rparr>],
          top_replies_of = [(1, [answer_review]), (4, [])],
          bottom_replies_of = [(1, []), (4, [])],
          res_heap =
            [\<lparr>comment_pk = 10, comment_text = ''Rename this'', reply_to_id = None,
               c_replies = [], c_review = Some 1\<rparr>]\<rparr>"
    by (simp add: eval_defs thread_rows_def top_review_def answer_review_def)
  have n: "filter (\<lambda>r. public r \<and> r \<noteq> top_review) ?rs = [answer_review]"
    using ne by (simp add: answer_review_def)
  from single_top_level_review [OF d t1 t2 t3 others targets rows]
  show ?thesis using d t1 t2 t3 run n by blast
qed

section \<open>The depth of the reply chains\<close>

lemma climb_add:
  "climb par (i + j) a = Option.bind (climb par i a) (climb par j)"
  by (induction i arbitrary: a) (simp_all split: option.splits)

lemma climb_split:
  assumes "j \<le> k" and "climb par k a = Some r"
  shows "\<exists>x. climb par j a = Some x \<and> climb par (k - j) x = Some r"
  using climb_add [of par j "k - j" a] assms
  by (cases "climb par j a") simp_all

lemma climb_range:
  assumes "\<And>x y. par x = Some y \<Longrightarrow> y < n" and "a < n" and "climb par i a = Some x"
  shows "x < n"
  using assms(2,3)
proof (induction i arbitrary: a)
  case 0
  then show ?case by simp
next
  case (Suc i)
  from Suc.prems(2) obtain b where b: "par a = Some b" and c: "climb par i b = Some x"
    by (auto split: option.splits)
  show ?case using Suc.IH [OF assms(1) [OF b] c] .
qed

lemma climb_past_root:
  assumes "par r = None" and "0 < d"
  shows "climb par d r = None"
  using assms by (cases d) simp_all

text \<open>On the way from a comment up to a comment without a parent, no comment occurs twice.\<close>

lemma climb_inj:
  assumes top: "climb par k a = Some r" "par r = None"
    and ij: "i < j" "j \<le> k"
    and eq: "climb par i a = climb par j a"
  shows False
proof -
  obtain x where x: "climb par j a = Some x" and xr: "climb par (k - j) x = Some r"
    using climb_split [OF ij(2) top(1)] by blast
  have "i \<le> k" using ij by simp
  from climb_split [OF this top(1)] have xi: "climb par (k - i) x = Some r"
    using x eq by simp
  have "k - j \<le> k - i" using ij by simp
  from climb_split [OF this xi] have "climb par (k - i - (k - j)) r = Some r"
    using xr by simp
  moreover have "k - i - (k - j) = j - i" using ij by simp
  ultimately have "climb par (j - i) r = Some r" by simp
  then show False using climb_past_root [of par r "j - i"] top(2) ij by simp
qed

lemma climb_bound:
  assumes range: "\<And>x y. par x = Some y \<Longrightarrow> y < n"
    and a: "a < n" and top: "climb par k a = Some r" "par r = None"
  shows "k < n"
proof -
  have defined: "\<exists>x. climb par i a = Some x" if "i \<le> k" for i
    using climb_split [OF that top(1)] by blast
  let ?f = "\<lambda>i. the (climb par i a)"
  have inj: "inj_on ?f {..k}"
  proof (rule inj_onI)
    fix i j assume i: "i \<in> {..k}" and j: "j \<in> {..k}" and eq: "?f i = ?f j"
    obtain x where x: "climb par i a = Some x" using defined i by auto
    obtain y where y: "climb par j a = Some y" using defined j by auto
    have same: "climb par i a = climb par j a" using eq x y by simp
    show "i = j"
    proof (rule ccontr)
      assume "i \<noteq> j"
      then consider "i < j" | "j < i" by linarith
      then show False
      proof cases
        case 1
        then show False using climb_inj [OF top 1 _ same] j by simp
      next
        case 2
        then show False using climb_inj [OF top 2 _ same [symmetric]] i by simp
      qed
    qed
  qed
  have sub: "?f ` {..k} \<subseteq> {..<n}"
  proof
    fix v assume "v \<in> ?f ` {..k}"
    then obtain i where i: "i \<le> k" and v: "v = ?f i" by auto
    obtain x where x: "climb par i a = Some x" using defined i by auto
    from climb_range [OF range a x] show "v \<in> {..<n}" using v x by simp
  qed
  have "card {..k} \<le> card {..<n}"
    by (rule card_inj_on_le [OF inj sub]) simp
  then show ?thesis by simp
qed

text \<open>
  A store in which the reply lists are the children of a parent function on \<open>n\<close>
  addresses: below a comment that lies \<open>k\<close> steps under a comment without a parent, the
  replies nest at most \<open>n - k\<close> deep.
\<close>

lemma forest_chain_within:
  assumes range: "\<And>x y. par x = Some y \<Longrightarrow> y < n"
    and children: "\<And>b c. b < n \<Longrightarrow> c \<in> set (c_replies (h ! b)) \<Longrightarrow> c < n \<and> par c = Some b"
    and a: "a < n" and top: "climb par k a = Some r" "par r = None"
  shows "chain_within (n - k) h a"
  using a top(1)
proof (induction "n - k" arbitrary: a k rule: less_induct)
  case less
  have k: "k < n" using climb_bound [OF range less.prems(1) less.prems(2) top(2)] .
  have "\<forall>c \<in> set (c_replies (h ! a)). chain_within (n - Suc k) h c"
  proof
    fix c assume "c \<in> set (c_replies (h ! a))"
    from children [OF less.prems(1) this] have c: "c < n" "par c = Some a" by simp_all
    have up: "climb par (Suc k) c = Some r" using c(2) less.prems(2) by simp
    have "Suc k < n" using climb_bound [OF range c(1) up top(2)] .
    then have "n - Suc k < n - k" by simp
    from less.hyps [OF this c(1) up] show "chain_within (n - Suc k) h c" .
  qed
  moreover have "n - k = Suc (n - Suc k)" using k by simp
  ultimately show ?case by simp
qed

lemma action_reply_range:
  assumes "action_of through rs obj = Reply_to b"
  shows "b < length (fetched through rs)"
proof -
  from assms obtain t where "map_of (comment_map_of through rs) t = Some b"
    by (auto simp: action_of_def row_action_def split: option.splits if_splits)
  then show ?thesis using comment_map_lookup by blast
qed

lemma parent_of_Some:
  "parent_of through rs a = Some b \<longleftrightarrow>
     action_of through rs (fetched through rs ! a) = Reply_to b"
  by (simp add: parent_of_def split: row_action.splits)

text \<open>
  In a reconstructed store, the replies below a comment that is in no reply list nest no
  deeper than there are fetched rows; so it is below every comment of an entry.
\<close>

lemma garc_chain_within:
  assumes res: "get_all_review_comments through rs = Inr res"
    and a: "a < length (fetched through rs)"
    and root: "parent_of through rs a = None"
  shows "chain_within (length (fetched through rs)) (res_heap res) a"
proof -
  have "chain_within (length (fetched through rs) - 0) (res_heap res) a"
  proof (rule forest_chain_within [where par = "parent_of through rs" and r = a])
    fix x y assume "parent_of through rs x = Some y"
    then show "y < length (fetched through rs)"
      by (simp add: parent_of_Some action_reply_range)
  next
    fix b c assume "b < length (fetched through rs)" "c \<in> set (c_replies (res_heap res ! b))"
    then show "c < length (fetched through rs) \<and> parent_of through rs c = Some b"
      by (simp add: garc_mem_replies [OF res] parent_of_Some)
  qed (use a root in simp_all)
  then show ?thesis by simp
qed

lemma garc_entry_chains:
  assumes res: "get_all_review_comments through rs = Inr res"
    and e: "e \<in> set (res_entries res)" and a: "a \<in> set (diff_comments e)"
  shows "chain_within (length (fetched through rs)) (res_heap res) a"
proof -
  from garc_attached_entry [OF res e a] obtain j where
    len: "a < length (fetched through rs)"
    and act: "action_of through rs (fetched through rs ! a) = To_entry j"
    by blast
  have "parent_of through rs a = None" using act by (simp add: parent_of_def)
  with res len show ?thesis by (rule garc_chain_within)
qed

section \<open>The text of the entries\<close>

lemma garc_entry_in_reviews:
  assumes "get_all_review_comments through rs = Inr res" and "e \<in> set (res_entries res)"
  shows "entry_review e \<in> set rs"
proof -
  from assms(2) have "entry_review e \<in> set (map entry_review (res_entries res))" by simp
  then show ?thesis unfolding garc_entry_reviews [OF assms(1)] by simp
qed

lemma garc_diff_comments_sorted:
  assumes "get_all_review_comments through rs = Inr res" and "e \<in> set (res_entries res)"
  shows "sorted_wrt (<) (diff_comments e)"
proof -
  from assms(2) obtain j where j: "j < length (res_entries res)" and e: "e = res_entries res ! j"
    by (auto simp: in_set_conv_nth)
  show ?thesis
    unfolding e garc_diff_comments [OF assms(1) j] by (rule sorted_enumerate_filter)
qed

lemma garc_entry_attrs:
  assumes "get_all_review_comments through rs = Inr res" and "e \<in> set (res_entries res)"
  shows "attr_get (top_replies_of res) (pk (entry_review e)) =
           Inr (filter (\<lambda>r. public r \<and> body_top_reply_to_id r = Some (pk (entry_review e))) rs)"
    and "attr_get (bottom_replies_of res) (pk (entry_review e)) =
           Inr (filter (\<lambda>r. public r \<and> body_bottom_reply_to_id r = Some (pk (entry_review e)))
                  rs)"
proof -
  have mem: "pk (entry_review e) \<in> pk ` set rs"
    using garc_entry_in_reviews [OF assms] by simp
  show "attr_get (top_replies_of res) (pk (entry_review e)) =
           Inr (filter (\<lambda>r. public r \<and> body_top_reply_to_id r = Some (pk (entry_review e))) rs)"
    using mem by (simp add: attr_get_def garc_top_replies [OF assms(1)])
  show "attr_get (bottom_replies_of res) (pk (entry_review e)) =
           Inr (filter (\<lambda>r. public r \<and> body_bottom_reply_to_id r = Some (pk (entry_review e)))
                  rs)"
    using mem by (simp add: attr_get_def garc_bottom_replies [OF assms(1)])
qed

lemma review_text_eq: "review_text = (\<lambda>x. body_top x @ nl @ body_bottom x)"
  by (rule ext) (simp add: review_text_def)

text \<open>One run of the loop body: the text it adds, and the exception it ends with.\<close>

lemma flatten_entry_eq:
  assumes "get_all_review_comments through rs = Inr res"
    and "e \<in> set (res_entries res)"
    and "\<And>a. a \<in> set (diff_comments e) \<Longrightarrow>
           flatten_comment frames (res_heap res) a = Inr (texts a)"
  shows "flatten_entry frames res e t0 =
           Inr (t0 @ entry_text rs e (map texts (diff_comments e)))"
  by (simp add: flatten_entry_def Let_def garc_entry_attrs [OF assms(1,2)] bind_err_def
      map_err_Inr [OF assms(3)] review_text_eq entry_text_def)

lemma flatten_entry_raise:
  assumes "get_all_review_comments through rs = Inr res"
    and "e \<in> set (res_entries res)"
    and "a \<in> set (diff_comments e)" and "\<not> chain_within frames (res_heap res) a"
  shows "flatten_entry frames res e t0 = Inl RuntimeError"
proof -
  have "map_err (flatten_comment frames (res_heap res)) (diff_comments e) = Inl RuntimeError"
  proof (rule map_err_Inl [OF _ assms(3)])
    fix x
    show "(\<exists>t. flatten_comment frames (res_heap res) x = Inr t) \<or>
          flatten_comment frames (res_heap res) x = Inl RuntimeError"
      using flatten_comment_outcome [of frames "res_heap res" x] by blast
  next
    show "flatten_comment frames (res_heap res) a = Inl RuntimeError"
      using assms(4) by (rule flatten_comment_beyond)
  qed
  then show ?thesis
    by (simp add: flatten_entry_def Let_def garc_entry_attrs [OF assms(1,2)] bind_err_def)
qed

text \<open>The loop over the entries.\<close>

lemma flatten_entries_eq:
  assumes "get_all_review_comments through rs = Inr res"
    and "set es \<subseteq> set (res_entries res)"
    and "\<And>e a. e \<in> set es \<Longrightarrow> a \<in> set (diff_comments e) \<Longrightarrow>
           flatten_comment frames (res_heap res) a = Inr (texts a)"
  shows "flatten_entries frames res es t0 =
           Inr (t0 @ concat (map (\<lambda>e. entry_text rs e (map texts (diff_comments e))) es))"
  using assms(2,3)
proof (induction es arbitrary: t0)
  case Nil
  show ?case by (simp add: flatten_entries_def)
next
  case (Cons e es)
  have e: "e \<in> set (res_entries res)" using Cons.prems(1) by simp
  have step: "flatten_entry frames res e t0 =
           Inr (t0 @ entry_text rs e (map texts (diff_comments e)))"
    by (rule flatten_entry_eq [OF assms(1) e]) (rule Cons.prems(2), simp_all)
  have rest: "flatten_entries frames res es (t0 @ entry_text rs e (map texts (diff_comments e))) =
           Inr ((t0 @ entry_text rs e (map texts (diff_comments e))) @
                concat (map (\<lambda>e. entry_text rs e (map texts (diff_comments e))) es))"
  proof (rule Cons.IH)
    show "set es \<subseteq> set (res_entries res)" using Cons.prems(1) by simp
  next
    fix e' a assume "e' \<in> set es" "a \<in> set (diff_comments e')"
    then show "flatten_comment frames (res_heap res) a = Inr (texts a)"
      using Cons.prems(2) [of e' a] by simp
  qed
  show ?case
    using step rest by (simp add: flatten_entries_def bind_err_def)
qed

lemma flatten_entries_raise:
  assumes "get_all_review_comments through rs = Inr res"
    and "set es \<subseteq> set (res_entries res)"
    and "e \<in> set es" and "a \<in> set (diff_comments e)"
    and "\<not> chain_within frames (res_heap res) a"
  shows "flatten_entries frames res es t0 = Inl RuntimeError"
  using assms(2,3)
proof (induction es arbitrary: t0)
  case Nil
  then show ?case by simp
next
  case (Cons e' es)
  have e': "e' \<in> set (res_entries res)" using Cons.prems(1) by simp
  show ?case
  proof (cases "\<forall>b \<in> set (diff_comments e'). chain_within frames (res_heap res) b")
    case False
    then obtain b where "b \<in> set (diff_comments e')" "\<not> chain_within frames (res_heap res) b"
      by blast
    with assms(1) e' have "flatten_entry frames res e' t0 = Inl RuntimeError"
      by (rule flatten_entry_raise)
    then show ?thesis by (simp add: flatten_entries_def bind_err_def)
  next
    case True
    have "flatten_entry frames res e' t0 =
            Inr (t0 @ entry_text rs e'
              (map (\<lambda>b. projr (flatten_comment frames (res_heap res) b)) (diff_comments e')))"
    proof (rule flatten_entry_eq [OF assms(1) e'])
      fix b assume "b \<in> set (diff_comments e')"
      then have "chain_within frames (res_heap res) b" using True by blast
      from flatten_comment_within [OF this]
      show "flatten_comment frames (res_heap res) b =
              Inr (projr (flatten_comment frames (res_heap res) b))"
        by auto
    qed
    moreover have "e \<in> set es" using Cons.prems(2) True assms(4,5) by auto
    moreover have "set es \<subseteq> set (res_entries res)" using Cons.prems(1) by simp
    ultimately show ?thesis
      using Cons.IH by (simp add: flatten_entries_def bind_err_def)
  qed
qed

text \<open>
  Claim C5. Take the entries of a reconstruction, in the order in which they are
  returned. Every entry adds to the comment text, each preceded by a newline: the
  \<^verbatim>\<open>body_top\<close> and the \<^verbatim>\<open>body_bottom\<close> of its review, the \<^verbatim>\<open>body_top\<close> and
  \<^verbatim>\<open>body_bottom\<close> of each public review that replies to the top, joined by newlines, and
  the same for each public review that replies to the bottom; then, with no newline before
  them, the flattened chains of the comments of the entry, joined by newlines. The
  comments of an entry are in fetch order. This is the result of the loop when the replies
  below every comment of an entry nest no deeper than the frames that are left, which is
  so when there are at least as many frames as fetched rows; otherwise the loop ends with
  the \<^verbatim>\<open>RuntimeError\<close> of the interpreter. The field \<^verbatim>\<open>comment\<close> of a document that
  is built holds what the loop returns from the empty text.
\<close>

theorem flatten_entry_text:
  assumes "get_all_review_comments (through_table env) (reviews request) = Inr res"
  shows "((\<forall>e \<in> set (res_entries res). \<forall>a \<in> set (diff_comments e).
             chain_within (frames_left env) (res_heap res) a) \<longrightarrow>
            (\<exists>texts.
               (\<forall>e \<in> set (res_entries res). \<forall>a \<in> set (diff_comments e).
                  flatten_comment (frames_left env) (res_heap res) a = Inr (texts a)) \<and>
               flatten_entries (frames_left env) res (res_entries res) t0 =
                 Inr (t0 @ concat (map (\<lambda>e.
                   nl @ body_top (entry_review e) @ nl @ body_bottom (entry_review e) @ nl @
                   join nl (map (\<lambda>x. body_top x @ nl @ body_bottom x)
                     (filter (\<lambda>r. public r \<and>
                                body_top_reply_to_id r = Some (pk (entry_review e)))
                        (reviews request))) @
                   nl @
                   join nl (map (\<lambda>x. body_top x @ nl @ body_bottom x)
                     (filter (\<lambda>r. public r \<and>
                                body_bottom_reply_to_id r = Some (pk (entry_review e)))
                        (reviews request))) @
                   join nl (map texts (diff_comments e)))
                   (res_entries res))))) \<and>
         (\<not> (\<forall>e \<in> set (res_entries res). \<forall>a \<in> set (diff_comments e).
               chain_within (frames_left env) (res_heap res) a) \<longrightarrow>
            flatten_entries (frames_left env) res (res_entries res) t0 = Inl RuntimeError) \<and>
         (\<forall>doc. build_document env request = Inr doc \<longrightarrow>
            (\<exists>text. flatten_entries (frames_left env) res (res_entries res) [] = Inr text \<and>
               map field_value (filter (\<lambda>f. field_name f = ''comment'') doc) = [text])) \<and>
         (\<forall>e \<in> set (res_entries res). sorted_wrt (<) (diff_comments e)) \<and>
         (length (fetched (through_table env) (reviews request)) \<le> frames_left env \<longrightarrow>
            (\<forall>e \<in> set (res_entries res). \<forall>a \<in> set (diff_comments e).
               chain_within (frames_left env) (res_heap res) a))"
proof (intro conjI impI allI ballI)
  assume fits: "\<forall>e \<in> set (res_entries res). \<forall>a \<in> set (diff_comments e).
             chain_within (frames_left env) (res_heap res) a"
  let ?texts = "\<lambda>a. projr (flatten_comment (frames_left env) (res_heap res) a)"
  have texts: "flatten_comment (frames_left env) (res_heap res) a = Inr (?texts a)"
    if "e \<in> set (res_entries res)" "a \<in> set (diff_comments e)" for e a
  proof -
    have "chain_within (frames_left env) (res_heap res) a" using fits that by blast
    from flatten_comment_within [OF this] show ?thesis by auto
  qed
  have "flatten_entries (frames_left env) res (res_entries res) t0 =
          Inr (t0 @ concat (map (\<lambda>e. entry_text (reviews request) e
                 (map ?texts (diff_comments e))) (res_entries res)))"
    by (rule flatten_entries_eq [OF assms subset_refl]) (rule texts)
  then have "(\<forall>e \<in> set (res_entries res). \<forall>a \<in> set (diff_comments e).
                  flatten_comment (frames_left env) (res_heap res) a = Inr (?texts a)) \<and>
               flatten_entries (frames_left env) res (res_entries res) t0 =
                 Inr (t0 @ concat (map (\<lambda>e.
                   nl @ body_top (entry_review e) @ nl @ body_bottom (entry_review e) @ nl @
                   join nl (map (\<lambda>x. body_top x @ nl @ body_bottom x)
                     (filter (\<lambda>r. public r \<and>
                                body_top_reply_to_id r = Some (pk (entry_review e)))
                        (reviews request))) @
                   nl @
                   join nl (map (\<lambda>x. body_top x @ nl @ body_bottom x)
                     (filter (\<lambda>r. public r \<and>
                                body_bottom_reply_to_id r = Some (pk (entry_review e)))
                        (reviews request))) @
                   join nl (map ?texts (diff_comments e)))
                   (res_entries res)))"
    using texts unfolding entry_text_def by blast
  then show "\<exists>texts.
               (\<forall>e \<in> set (res_entries res). \<forall>a \<in> set (diff_comments e).
                  flatten_comment (frames_left env) (res_heap res) a = Inr (texts a)) \<and>
               flatten_entries (frames_left env) res (res_entries res) t0 =
                 Inr (t0 @ concat (map (\<lambda>e.
                   nl @ body_top (entry_review e) @ nl @ body_bottom (entry_review e) @ nl @
                   join nl (map (\<lambda>x. body_top x @ nl @ body_bottom x)
                     (filter (\<lambda>r. public r \<and>
                                body_top_reply_to_id r = Some (pk (entry_review e)))
                        (reviews request))) @
                   nl @
                   join nl (map (\<lambda>x. body_top x @ nl @ body_bottom x)
                     (filter (\<lambda>r. public r \<and>
                                body_bottom_reply_to_id r = Some (pk (entry_review e)))
                        (reviews request))) @
                   join nl (map texts (diff_comments e)))
                   (res_entries res)))"
    by (rule exI [of _ ?texts])
next
  assume "\<not> (\<forall>e \<in> set (res_entries res). \<forall>a \<in> set (diff_comments e).
               chain_within (frames_left env) (res_heap res) a)"
  then obtain e a where "e \<in> set (res_entries res)" "a \<in> set (diff_comments e)"
    "\<not> chain_within (frames_left env) (res_heap res) a"
    by blast
  with assms subset_refl
  show "flatten_entries (frames_left env) res (res_entries res) t0 = Inl RuntimeError"
    by (rule flatten_entries_raise)
next
  fix doc assume doc: "build_document env request = Inr doc"
  then obtain modes body where
    t: "flatten_entries (frames_left env) res (res_entries res) [] = Inr body"
    and d: "doc = make_document env modes request body"
    using assms by (auto simp: build_document_def bind_err_def split: sum.splits)
  show "\<exists>text. flatten_entries (frames_left env) res (res_entries res) [] = Inr text \<and>
               map field_value (filter (\<lambda>f. field_name f = ''comment'') doc) = [text]"
    using t unfolding d make_document_comment by blast
next
  fix e assume "e \<in> set (res_entries res)"
  with assms show "sorted_wrt (<) (diff_comments e)" by (rule garc_diff_comments_sorted)
next
  fix e a
  assume le: "length (fetched (through_table env) (reviews request)) \<le> frames_left env"
    and e: "e \<in> set (res_entries res)" and a: "a \<in> set (diff_comments e)"
  from assms e a have "chain_within (length (fetched (through_table env) (reviews request)))
                     (res_heap res) a"
    by (rule garc_entry_chains)
  then show "chain_within (frames_left env) (res_heap res) a"
    using le by (rule chain_within_mono)
qed

lemma thread_env_sel:
  "through_table thread_env = thread_rows" "frames_left thread_env = 1000"
  "lucene_is_2x thread_env = False" "lucene_is_3x thread_env = True"
  "reviews thread_request = thread_reviews"
  "through_table shallow_env = thread_rows" "frames_left shallow_env = 1"
  "lucene_is_2x shallow_env = False" "lucene_is_3x shallow_env = True"
  by (simp_all add: thread_env_def shallow_env_def thread_request_def example_env_def
      example_request_def)

lemma thread_run:
  "get_all_review_comments (through_table thread_env) (reviews thread_request) =
     Inr thread_result"
  "get_all_review_comments (through_table shallow_env) (reviews thread_request) =
     Inr thread_result"
  by (simp_all only: thread_env_sel thread_reconstruction)

lemma thread_entries:
  "res_entries thread_result =
     [\<lparr>entry_review = top_review, diff_comments = [0], entry_timestamp = 100\<rparr>]"
  by (simp add: thread_result_def)

lemma thread_fits:
  "\<forall>e \<in> set (res_entries thread_result). \<forall>a \<in> set (diff_comments e).
     chain_within (frames_left thread_env) (res_heap thread_result) a"
  using chain_within_mono [OF thread_within, of 1000]
  by (simp add: thread_entries thread_env_sel)

lemma shallow_not_fits:
  "\<not> (\<forall>e \<in> set (res_entries thread_result). \<forall>a \<in> set (diff_comments e).
        chain_within (frames_left shallow_env) (res_heap thread_result) a)"
  using thread_not_within by (simp add: thread_entries thread_env_sel)

text \<open>
  The discussion, with 1000 frames left and with one frame left. The entry has one
  comment, whose chain nests two deep.
\<close>

theorem flatten_entry_text_witness:
  "get_all_review_comments (through_table thread_env) (reviews thread_request) =
     Inr thread_result \<and>
   map diff_comments (res_entries thread_result) = [[0]] \<and>
   chain_within (frames_left thread_env) (res_heap thread_result) 0 \<and>
   flatten_entries (frames_left thread_env) thread_result (res_entries thread_result) [] =
     Inr (nl @ ''Looks good'' @ nl @ ''Ship it'' @ nl @ [] @ nl @
          ([] @ nl @ ''Thanks'') @ (''Rename this'' @ nl @ ''Done'')) \<and>
   build_document thread_env thread_request =
     Inr (make_document thread_env (ANALYZED, NOT_ANALYZED) thread_request thread_text) \<and>
   map field_value (filter (\<lambda>f. field_name f = ''comment'')
     (make_document thread_env (ANALYZED, NOT_ANALYZED) thread_request thread_text)) =
     [thread_text] \<and>
   get_all_review_comments (through_table shallow_env) (reviews thread_request) =
     Inr thread_result \<and>
   \<not> chain_within (frames_left shallow_env) (res_heap thread_result) 0 \<and>
   flatten_entries (frames_left shallow_env) thread_result (res_entries thread_result) [] =
     Inl RuntimeError"
proof -
  note deep = flatten_entry_text [OF thread_run(1), of "[]"]
  note shallow = flatten_entry_text [OF thread_run(2), of "[]"]
  from deep [THEN conjunct1, THEN mp, OF thread_fits]
  obtain texts where
    texts: "\<forall>e \<in> set (res_entries thread_result). \<forall>a \<in> set (diff_comments e).
              flatten_comment (frames_left thread_env) (res_heap thread_result) a =
                Inr (texts a)"
    and run: "flatten_entries (frames_left thread_env) thread_result
                (res_entries thread_result) [] =
              Inr ([] @ concat (map (\<lambda>e.
                   nl @ body_top (entry_review e) @ nl @ body_bottom (entry_review e) @ nl @
                   join nl (map (\<lambda>x. body_top x @ nl @ body_bottom x)
                     (filter (\<lambda>r. public r \<and>
                                body_top_reply_to_id r = Some (pk (entry_review e)))
                        (reviews thread_request))) @
                   nl @
                   join nl (map (\<lambda>x. body_top x @ nl @ body_bottom x)
                     (filter (\<lambda>r. public r \<and>
                                body_bottom_reply_to_id r = Some (pk (entry_review e)))
                        (reviews thread_request))) @
                   join nl (map texts (diff_comments e)))
                   (res_entries thread_result)))"
    by (elim exE conjE)
  from texts have "flatten_comment 1000 (res_heap thread_result) 0 = Inr (texts 0)"
    by (simp add: thread_entries thread_env_sel)
  then have t0: "texts 0 = ''Rename this'' @ nl @ ''Done''"
    by (simp add: thread_flatten)
  have a: "flatten_entries (frames_left thread_env) thread_result (res_entries thread_result) [] =
     Inr (nl @ ''Looks good'' @ nl @ ''Ship it'' @ nl @ [] @ nl @
          ([] @ nl @ ''Thanks'') @ (''Rename this'' @ nl @ ''Done''))"
    using run
    by (simp add: thread_entries thread_env_sel t0 thread_reviews_def top_review_def
        draft_review_def reply_review_def)
  have b: "build_document thread_env thread_request =
     Inr (make_document thread_env (ANALYZED, NOT_ANALYZED) thread_request thread_text)"
    by (simp add: build_document_def index_modes_def thread_env_sel(3,4) thread_run(1) a
        bind_err_def thread_text_def)
  from deep [THEN conjunct2, THEN conjunct2, THEN conjunct1, rule_format, OF b]
  have c: "map field_value (filter (\<lambda>f. field_name f = ''comment'')
     (make_document thread_env (ANALYZED, NOT_ANALYZED) thread_request thread_text)) =
     [thread_text]"
    by (simp add: a thread_text_def)
  have d: "flatten_entries (frames_left shallow_env) thread_result (res_entries thread_result) [] =
     Inl RuntimeError"
    by (rule shallow [THEN conjunct2, THEN conjunct1, THEN mp, OF shallow_not_fits])
  have e: "map diff_comments (res_entries thread_result) = [[0]]"
    by (simp add: thread_entries)
  have f: "chain_within (frames_left thread_env) (res_heap thread_result) 0"
    using thread_fits by (simp add: thread_entries)
  have g: "\<not> chain_within (frames_left shallow_env) (res_heap thread_result) 0"
    using shallow_not_fits by (simp add: thread_entries)
  show ?thesis
    by (intro conjI thread_run e f a b c g d)
qed

section \<open>The loop over the requests\<close>













end
